theory Spec2Isabelle
  imports Main "HOL-Library.Word"
begin

section \<open>The address arbiter of the kernel (k_address_arbiter.cpp)\<close>

text \<open>
  A shallow embedding of \<^verbatim>\<open>core/hle/kernel/k_address_arbiter.cpp\<close>. The machine
  integers of the source are words: \<^verbatim>\<open>s32\<close> and \<^verbatim>\<open>u32\<close> are \<open>32 word\<close> (signed
  comparisons are \<open><s\<close> and \<open>\<le>s\<close>, arithmetic wraps), \<^verbatim>\<open>VAddr\<close>, \<^verbatim>\<open>u64\<close> and
  \<^verbatim>\<open>s64\<close> are \<open>64 word\<close>. A \<^verbatim>\<open>KThread*\<close> is a thread number; the thread objects live
  in a store, so that the tree and the callers alias the same object.
\<close>

type_synonym VAddr = "64 word"
type_synonym s32 = "32 word"
type_synonym u32 = "32 word"
type_synonym s64 = "64 word"
type_synonym thread_ptr = nat

datatype ResultCode =
    RESULT_SUCCESS
  | ResultInvalidCurrentMemory
  | ResultInvalidState
  | ResultTimedOut
  | ResultTerminationRequested

datatype ThreadState = Running | Runnable | Waiting

datatype ThreadWaitReasonForDebugging = NoReason | Arbitration

subsection \<open>The thread object\<close>

text \<open>
  Modelled from the spec: the class \<^verbatim>\<open>KThread\<close> (k_thread.h) is not part of the source
  at hand. The record has the fields behind the accessors that the arbiter calls
  (section 3 of the specification, "Thread (external, contract only)"):
  \<open>address_arbiter_tree\<close> says whether the thread's tree pointer is set, which is what
  \<^verbatim>\<open>IsWaitingForAddressArbiter()\<close> reports. The states of a thread are those of the
  state machine in section 4.3.5.
\<close>

record KThread =
  priority :: s32
  address_arbiter_key :: "64 word"
  address_arbiter_tree :: bool
  wait_result :: ResultCode
  thread_state :: ThreadState
  termination_requested :: bool
  wait_reason :: ThreadWaitReasonForDebugging

subsection \<open>The system state\<close>

text \<open>
  \<open>memory\<close> is the guest memory, one 32-bit cell per address. \<open>exclusive\<close> is the
  reservation of the current core's exclusive monitor. \<open>interference\<close> is what the other
  cores do: one entry is consumed by each exclusive store of this core and tells what
  happened between the exclusive load and that store: \<open>Some w\<close> when another core wrote
  \<open>w\<close> to the reserved cell, \<open>None\<close> when nothing happened. With the list exhausted nothing
  happens any more. \<open>thread_tree\<close> is the arbiter's intrusive tree in iteration order,
  \<open>wakeups\<close> records the calls of \<^verbatim>\<open>KThread::Wakeup\<close> in the order in which they are made
  and \<open>sleep_timer\<close> tells which threads have a time event scheduled.
\<close>

record System =
  memory :: "VAddr \<Rightarrow> u32"
  exclusive :: "VAddr option"
  interference :: "u32 option list"
  threads :: "thread_ptr \<Rightarrow> KThread"
  thread_tree :: "thread_ptr list"
  wakeups :: "thread_ptr list"
  sleep_timer :: "thread_ptr \<Rightarrow> bool"

subsection \<open>Memory and the exclusive monitor\<close>

definition Read32 :: "System \<Rightarrow> VAddr \<Rightarrow> u32" where
  "Read32 st address = memory st address"

text \<open>
  Modelled from the spec: the exclusive monitor (core/arm/exclusive_monitor.h) is not part
  of the source at hand. Section 3: \<^verbatim>\<open>ExclusiveRead32\<close> takes a reservation,
  \<^verbatim>\<open>ExclusiveWrite32\<close> commits iff the reservation is still valid and returns whether it
  did, \<^verbatim>\<open>ClearExclusive\<close> drops the reservation. A write of another core to the reserved
  cell lands in memory and invalidates the reservation.
\<close>

definition ExclusiveRead32 :: "System \<Rightarrow> VAddr \<Rightarrow> u32 \<times> System" where
  "ExclusiveRead32 st address = (memory st address, st\<lparr>exclusive := Some address\<rparr>)"

definition other_cores :: "System \<Rightarrow> System" where
  "other_cores st =
     (case interference st of
        [] \<Rightarrow> st
      | None # rest \<Rightarrow> st\<lparr>interference := rest\<rparr>
      | Some w # rest \<Rightarrow>
          (case exclusive st of
             None \<Rightarrow> st\<lparr>interference := rest\<rparr>
           | Some a \<Rightarrow> st\<lparr>memory := (memory st)(a := w), exclusive := None,
                           interference := rest\<rparr>))"

definition ExclusiveWrite32 :: "System \<Rightarrow> VAddr \<Rightarrow> u32 \<Rightarrow> bool \<times> System" where
  "ExclusiveWrite32 st address v =
     (let st1 = other_cores st in
      if exclusive st1 = Some address
      then (True, st1\<lparr>memory := (memory st1)(address := v), exclusive := None\<rparr>)
      else (False, st1\<lparr>exclusive := None\<rparr>))"

definition ClearExclusive :: "System \<Rightarrow> System" where
  "ClearExclusive st = st\<lparr>exclusive := None\<rparr>"

subsection \<open>The operations on user memory\<close>

text \<open>
  Each function of the source returns \<^verbatim>\<open>bool\<close> and writes \<^verbatim>\<open>*out\<close>; the model returns
  the boolean, the final content of \<^verbatim>\<open>*out\<close> and the new state.
\<close>

definition ReadFromUser :: "System \<Rightarrow> VAddr \<Rightarrow> bool \<times> s32 \<times> System" where
  "ReadFromUser st address = (True, Read32 st address, st)"

lemma ExclusiveWrite32_failed_shorter:
  "\<not> fst (ExclusiveWrite32 (snd (ExclusiveRead32 st address)) address v) \<Longrightarrow>
   length (interference (snd (ExclusiveWrite32 (snd (ExclusiveRead32 st address)) address v)))
     < length (interference st)"
  by (auto simp: ExclusiveWrite32_def ExclusiveRead32_def other_cores_def Let_def
           split: list.splits option.splits if_splits)

text \<open>
  \<^verbatim>\<open>DecrementIfLessThan\<close>: when the exclusive store fails the function calls itself, and
  that call writes \<^verbatim>\<open>*out\<close>; control then falls through to the caller's own
  \<^verbatim>\<open>*out = current_value\<close>, which is the assignment that stands. The recursion consumes
  one entry of \<open>interference\<close> for each failed store.
\<close>

function DecrementIfLessThan :: "System \<Rightarrow> VAddr \<Rightarrow> s32 \<Rightarrow> bool \<times> s32 \<times> System" where
  "DecrementIfLessThan st address v =
     (let rd = ExclusiveRead32 st address;
          current_value = fst rd;
          st2 =
            (if current_value <s v then
               (let decrement_value = current_value - 1;
                    wr = ExclusiveWrite32 (snd rd) address decrement_value
                in if \<not> fst wr
                   then snd (snd (DecrementIfLessThan (snd wr) address v))
                   else snd wr)
             else ClearExclusive (snd rd))
      in (True, current_value, st2))"
  by pat_completeness auto
termination
proof (relation "measure (\<lambda>(st, address, v). length (interference st))", goal_cases)
  case 1
  show ?case by simp
next
  case (2 st address v rd current_value decrement_value wr)
  then show ?case
    using ExclusiveWrite32_failed_shorter [of st address decrement_value]
    by (simp add: ExclusiveRead32_def)
qed

declare DecrementIfLessThan.simps [simp del]

function UpdateIfEqual :: "System \<Rightarrow> VAddr \<Rightarrow> s32 \<Rightarrow> s32 \<Rightarrow> bool \<times> s32 \<times> System" where
  "UpdateIfEqual st address v new_value =
     (let rd = ExclusiveRead32 st address;
          current_value = fst rd;
          st2 =
            (if current_value = v then
               (let wr = ExclusiveWrite32 (snd rd) address new_value
                in if \<not> fst wr
                   then snd (snd (UpdateIfEqual (snd wr) address v new_value))
                   else snd wr)
             else ClearExclusive (snd rd))
      in (True, current_value, st2))"
  by pat_completeness auto
termination
proof (relation "measure (\<lambda>(st, address, v, new_value). length (interference st))", goal_cases)
  case 1
  show ?case by simp
next
  case (2 st address v new_value rd current_value wr)
  then show ?case
    using ExclusiveWrite32_failed_shorter [of st address new_value]
    by (simp add: ExclusiveRead32_def)
qed

declare UpdateIfEqual.simps [simp del]

subsection \<open>The accessors of the thread object\<close>

text \<open>
  Modelled from the spec: the member functions of \<^verbatim>\<open>KThread\<close> that the arbiter calls
  (section 3). \<^verbatim>\<open>SetSyncedObject(nullptr, r)\<close> stores the wait result,
  \<^verbatim>\<open>SetAddressArbiter(tree, addr)\<close> records the binding, \<^verbatim>\<open>ClearAddressArbiter()\<close>
  resets the tree pointer and leaves the key, \<^verbatim>\<open>Wakeup()\<close> makes a waiting thread
  runnable. Every call of \<^verbatim>\<open>Wakeup\<close> is recorded in \<open>wakeups\<close>.
\<close>

definition update_thread :: "System \<Rightarrow> thread_ptr \<Rightarrow> (KThread \<Rightarrow> KThread) \<Rightarrow> System" where
  "update_thread st t f = st\<lparr>threads := (threads st)(t := f (threads st t))\<rparr>"

definition SetSyncedObject :: "System \<Rightarrow> thread_ptr \<Rightarrow> ResultCode \<Rightarrow> System" where
  "SetSyncedObject st t r = update_thread st t (\<lambda>th. th\<lparr>wait_result := r\<rparr>)"

definition GetWaitResult :: "System \<Rightarrow> thread_ptr \<Rightarrow> ResultCode" where
  "GetWaitResult st t = wait_result (threads st t)"

definition IsWaitingForAddressArbiter :: "System \<Rightarrow> thread_ptr \<Rightarrow> bool" where
  "IsWaitingForAddressArbiter st t = address_arbiter_tree (threads st t)"

definition GetAddressArbiterKey :: "System \<Rightarrow> thread_ptr \<Rightarrow> 64 word" where
  "GetAddressArbiterKey st t = address_arbiter_key (threads st t)"

definition GetPriority :: "System \<Rightarrow> thread_ptr \<Rightarrow> s32" where
  "GetPriority st t = priority (threads st t)"

definition IsTerminationRequested :: "System \<Rightarrow> thread_ptr \<Rightarrow> bool" where
  "IsTerminationRequested st t = termination_requested (threads st t)"

definition SetAddressArbiter :: "System \<Rightarrow> thread_ptr \<Rightarrow> VAddr \<Rightarrow> System" where
  "SetAddressArbiter st t addr =
     update_thread st t (\<lambda>th. th\<lparr>address_arbiter_tree := True, address_arbiter_key := addr\<rparr>)"

definition ClearAddressArbiter :: "System \<Rightarrow> thread_ptr \<Rightarrow> System" where
  "ClearAddressArbiter st t = update_thread st t (\<lambda>th. th\<lparr>address_arbiter_tree := False\<rparr>)"

definition SetState :: "System \<Rightarrow> thread_ptr \<Rightarrow> ThreadState \<Rightarrow> System" where
  "SetState st t s = update_thread st t (\<lambda>th. th\<lparr>thread_state := s\<rparr>)"

definition SetWaitReasonForDebugging ::
    "System \<Rightarrow> thread_ptr \<Rightarrow> ThreadWaitReasonForDebugging \<Rightarrow> System" where
  "SetWaitReasonForDebugging st t r = update_thread st t (\<lambda>th. th\<lparr>wait_reason := r\<rparr>)"

definition Wakeup :: "System \<Rightarrow> thread_ptr \<Rightarrow> System" where
  "Wakeup st t =
     (let st1 = st\<lparr>wakeups := wakeups st @ [t]\<rparr>
      in if thread_state (threads st1 t) = Waiting then SetState st1 t Runnable else st1)"

definition UnscheduleTimeEvent :: "System \<Rightarrow> thread_ptr \<Rightarrow> System" where
  "UnscheduleTimeEvent st t = st\<lparr>sleep_timer := (sleep_timer st)(t := False)\<rparr>"

subsection \<open>The wait tree\<close>

text \<open>
  Modelled from the spec: the intrusive red-black tree and its comparator (k_thread.h) are
  not part of the source at hand. Sections 3 and 4.2: the tree is ordered by the pair of
  address key and priority, a new thread goes behind the threads that are not after it
  (first in, first out among equal keys), \<^verbatim>\<open>nfind_light\<close> is the lower bound, and
  \<^verbatim>\<open>erase\<close> returns the successor. An iterator is a position in the iteration order;
  \<^verbatim>\<open>end()\<close> is the length of the tree, and erasing at a position leaves the successor at
  that same position. No iterator is beyond \<^verbatim>\<open>end()\<close>, so the tests \<^verbatim>\<open>it != end()\<close>
  of the source are written \<open>it < tree_end st\<close>.
\<close>

definition light_before :: "VAddr \<times> s32 \<Rightarrow> KThread \<Rightarrow> bool" where
  "light_before k th \<longleftrightarrow>
     fst k < address_arbiter_key th \<or> (fst k = address_arbiter_key th \<and> snd k \<le>s priority th)"

definition thread_less :: "KThread \<Rightarrow> KThread \<Rightarrow> bool" where
  "thread_less a b \<longleftrightarrow>
     address_arbiter_key a < address_arbiter_key b \<or>
     (address_arbiter_key a = address_arbiter_key b \<and> priority a <s priority b)"

definition tree_end :: "System \<Rightarrow> nat" where
  "tree_end st = length (thread_tree st)"

definition nfind_light :: "System \<Rightarrow> VAddr \<times> s32 \<Rightarrow> nat" where
  "nfind_light st k =
     length (takeWhile (\<lambda>t. \<not> light_before k (threads st t)) (thread_tree st))"

definition tree_insert :: "System \<Rightarrow> thread_ptr \<Rightarrow> System" where
  "tree_insert st t =
     st\<lparr>thread_tree :=
          takeWhile (\<lambda>u. \<not> thread_less (threads st t) (threads st u)) (thread_tree st) @
          t # dropWhile (\<lambda>u. \<not> thread_less (threads st t) (threads st u)) (thread_tree st)\<rparr>"

definition tree_erase :: "System \<Rightarrow> nat \<Rightarrow> System" where
  "tree_erase st it = st\<lparr>thread_tree := take it (thread_tree st) @ drop (Suc it) (thread_tree st)\<rparr>"

definition iterator_to :: "System \<Rightarrow> thread_ptr \<Rightarrow> nat" where
  "iterator_to st t = length (takeWhile (\<lambda>u. u \<noteq> t) (thread_tree st))"

subsection \<open>Signalling\<close>

text \<open>
  The loop that wakes a batch. The source has the same loop in \<^verbatim>\<open>Signal\<close>,
  \<^verbatim>\<open>SignalAndIncrementIfEqual\<close> and \<^verbatim>\<open>SignalAndModifyByWaitingCountIfEqual\<close>; the
  model has it once. The \<^verbatim>\<open>ASSERT\<close> of the loop body checks and changes nothing.
\<close>

lemma length_tree_erase:
  "it < length (thread_tree st) \<Longrightarrow>
   length (thread_tree (tree_erase st it)) = length (thread_tree st) - 1"
  by (simp add: tree_erase_def)

lemma thread_tree_update_thread [simp]: "thread_tree (update_thread st t f) = thread_tree st"
  by (simp add: update_thread_def)

lemma thread_tree_Wakeup [simp]: "thread_tree (Wakeup st t) = thread_tree st"
  by (simp add: Wakeup_def SetState_def Let_def)

lemma thread_tree_SetSyncedObject [simp]: "thread_tree (SetSyncedObject st t r) = thread_tree st"
  by (simp add: SetSyncedObject_def)

lemma thread_tree_ClearAddressArbiter [simp]:
  "thread_tree (ClearAddressArbiter st t) = thread_tree st"
  by (simp add: ClearAddressArbiter_def)

definition wake_one :: "System \<Rightarrow> nat \<Rightarrow> System" where
  "wake_one st it =
     (let target_thread = thread_tree st ! it;
          st1 = SetSyncedObject st target_thread RESULT_SUCCESS;
          st2 = Wakeup st1 target_thread;
          st3 = tree_erase st2 it;
          st4 = ClearAddressArbiter st3 target_thread
      in st4)"

lemma length_wake_one:
  "it < length (thread_tree st) \<Longrightarrow>
   length (thread_tree (wake_one st it)) = length (thread_tree st) - 1"
  by (simp add: wake_one_def Let_def length_tree_erase)

function signal_loop :: "System \<Rightarrow> VAddr \<Rightarrow> s32 \<Rightarrow> s32 \<Rightarrow> nat \<Rightarrow> System" where
  "signal_loop st addr count num_waiters it =
     (if it < tree_end st \<and> (count \<le>s 0 \<or> num_waiters <s count) \<and>
         GetAddressArbiterKey st (thread_tree st ! it) = addr
      then signal_loop (wake_one st it) addr count (num_waiters + 1) it
      else st)"
  by pat_completeness auto
termination
proof (relation "measure (\<lambda>(st, addr, count, num_waiters, it). length (thread_tree st) - it)",
       goal_cases)
  case 1
  show ?case by simp
next
  case (2 st addr count num_waiters it)
  then show ?case by (auto simp: tree_end_def length_wake_one)
qed

declare signal_loop.simps [simp del]

definition Signal :: "System \<Rightarrow> VAddr \<Rightarrow> s32 \<Rightarrow> ResultCode \<times> System" where
  "Signal st addr count =
     (let it = nfind_light st (addr, - 1)
      in (RESULT_SUCCESS, signal_loop st addr count 0 it))"

definition SignalAndIncrementIfEqual ::
    "System \<Rightarrow> VAddr \<Rightarrow> s32 \<Rightarrow> s32 \<Rightarrow> ResultCode \<times> System" where
  "SignalAndIncrementIfEqual st addr v count =
     (let upd = UpdateIfEqual st addr v (v + 1);
          user_value = fst (snd upd);
          st1 = snd (snd upd)
      in if \<not> fst upd then (ResultInvalidCurrentMemory, st1)
         else if user_value \<noteq> v then (ResultInvalidState, st1)
         else (let it = nfind_light st1 (addr, - 1)
               in (RESULT_SUCCESS, signal_loop st1 addr count 0 it)))"

text \<open>
  The counting loop of \<^verbatim>\<open>SignalAndModifyByWaitingCountIfEqual\<close>:
  \<^verbatim>\<open>while ((++tmp_it != end) && (key == addr)) { if ((tmp_num_waiters++) >= count) break; }\<close>.
  The post-increment happens also in the round that breaks. The result is the final
  \<^verbatim>\<open>tmp_num_waiters\<close>.
\<close>

function count_loop :: "System \<Rightarrow> VAddr \<Rightarrow> s32 \<Rightarrow> nat \<Rightarrow> s32 \<Rightarrow> s32" where
  "count_loop st addr count tmp_it tmp_num_waiters =
     (let tmp_it1 = Suc tmp_it
      in if tmp_it1 < tree_end st \<and> GetAddressArbiterKey st (thread_tree st ! tmp_it1) = addr
         then (if count \<le>s tmp_num_waiters then tmp_num_waiters + 1
               else count_loop st addr count tmp_it1 (tmp_num_waiters + 1))
         else tmp_num_waiters)"
  by pat_completeness auto
termination
  by (relation "measure (\<lambda>(st, addr, count, tmp_it, n). length (thread_tree st) - tmp_it)")
     (auto simp: tree_end_def)

declare count_loop.simps [simp del]

text \<open>
  The new value of \<^verbatim>\<open>SignalAndModifyByWaitingCountIfEqual\<close>. The source guards the
  computation with \<^verbatim>\<open>if (true)\<close>; the \<^verbatim>\<open>else\<close> branch (the formula of older firmware)
  cannot run and is left out.
\<close>

definition modify_new_value :: "System \<Rightarrow> VAddr \<Rightarrow> s32 \<Rightarrow> s32 \<Rightarrow> nat \<Rightarrow> s32" where
  "modify_new_value st addr v count it =
     (if count \<le>s 0 then
        (if it < tree_end st \<and> GetAddressArbiterKey st (thread_tree st ! it) = addr
         then v - 2 else v + 1)
      else
        (if it < tree_end st \<and> GetAddressArbiterKey st (thread_tree st ! it) = addr
         then (let tmp_num_waiters = count_loop st addr count it 0
               in if tmp_num_waiters <s count then v - 1 else v)
         else v + 1))"

definition SignalAndModifyByWaitingCountIfEqual ::
    "System \<Rightarrow> VAddr \<Rightarrow> s32 \<Rightarrow> s32 \<Rightarrow> ResultCode \<times> System" where
  "SignalAndModifyByWaitingCountIfEqual st addr v count =
     (let it = nfind_light st (addr, - 1);
          new_value = modify_new_value st addr v count it;
          rd = (if v \<noteq> new_value then UpdateIfEqual st addr v new_value
                else ReadFromUser st addr);
          succeeded = fst rd;
          user_value = fst (snd rd);
          st1 = snd (snd rd)
      in if \<not> succeeded then (ResultInvalidCurrentMemory, st1)
         else if user_value \<noteq> v then (ResultInvalidState, st1)
         else (RESULT_SUCCESS, signal_loop st1 addr count 0 it))"

subsection \<open>Waiting\<close>

text \<open>
  A wait has two parts. The first runs under \<^verbatim>\<open>KScopedSchedulerLockAndSleep\<close> and either
  returns early, after \<^verbatim>\<open>CancelSleep()\<close>, or enrolls the thread and parks it; the result
  is \<open>Some r\<close> for an early return of \<open>r\<close> and \<open>None\<close> when the thread parks. The second
  part runs when the thread is running again, after a signal or after its timer.

  Modelled from the spec: \<^verbatim>\<open>KScopedSchedulerLockAndSleep\<close> and the time manager are not
  part of the source at hand. Section 9: the scope arms a sleep timer, and its release
  either cancels the sleep or parks the thread; section 5: a negative timeout waits
  without a timer.
\<close>

definition park :: "System \<Rightarrow> thread_ptr \<Rightarrow> VAddr \<Rightarrow> s64 \<Rightarrow> System" where
  "park st cur_thread addr timeout =
     (let st1 = SetAddressArbiter st cur_thread addr;
          st2 = tree_insert st1 cur_thread;
          st3 = SetState st2 cur_thread Waiting;
          st4 = SetWaitReasonForDebugging st3 cur_thread Arbitration
      in st4\<lparr>sleep_timer := (sleep_timer st4)(cur_thread := 0 <s timeout)\<rparr>)"

definition WaitIfLessThan_begin ::
    "System \<Rightarrow> thread_ptr \<Rightarrow> VAddr \<Rightarrow> s32 \<Rightarrow> bool \<Rightarrow> s64 \<Rightarrow> ResultCode option \<times> System" where
  "WaitIfLessThan_begin st cur_thread addr v decrement timeout =
     (if IsTerminationRequested st cur_thread then (Some ResultTerminationRequested, st)
      else
        (let st1 = SetSyncedObject st cur_thread ResultTimedOut;
             rd = (if decrement then DecrementIfLessThan st1 addr v
                   else ReadFromUser st1 addr);
             succeeded = fst rd;
             user_value = fst (snd rd);
             st2 = snd (snd rd)
         in if \<not> succeeded then (Some ResultInvalidCurrentMemory, st2)
            else if v \<le>s user_value then (Some ResultInvalidState, st2)
            else if timeout = 0 then (Some ResultTimedOut, st2)
            else (None, park st2 cur_thread addr timeout)))"

definition WaitIfEqual_begin ::
    "System \<Rightarrow> thread_ptr \<Rightarrow> VAddr \<Rightarrow> s32 \<Rightarrow> s64 \<Rightarrow> ResultCode option \<times> System" where
  "WaitIfEqual_begin st cur_thread addr v timeout =
     (if IsTerminationRequested st cur_thread then (Some ResultTerminationRequested, st)
      else
        (let st1 = SetSyncedObject st cur_thread ResultTimedOut;
             rd = ReadFromUser st1 addr;
             user_value = fst (snd rd);
             st2 = snd (snd rd)
         in if \<not> fst rd then (Some ResultInvalidCurrentMemory, st2)
            else if v \<noteq> user_value then (Some ResultInvalidState, st2)
            else if timeout = 0 then (Some ResultTimedOut, st2)
            else (None, park st2 cur_thread addr timeout)))"

text \<open>
  The second part is the same text in \<^verbatim>\<open>WaitIfLessThan\<close> and \<^verbatim>\<open>WaitIfEqual\<close>: cancel
  the timer, leave the tree if the thread is still enrolled, return the stored result.
\<close>

definition Wait_finish :: "System \<Rightarrow> thread_ptr \<Rightarrow> ResultCode \<times> System" where
  "Wait_finish st cur_thread =
     (let st1 = UnscheduleTimeEvent st cur_thread;
          st2 = (if IsWaitingForAddressArbiter st1 cur_thread
                 then ClearAddressArbiter (tree_erase st1 (iterator_to st1 cur_thread)) cur_thread
                 else st1)
      in (GetWaitResult st2 cur_thread, st2))"

text \<open>The timer of a parked thread expires: the time manager wakes the thread.\<close>

definition timer_expires :: "System \<Rightarrow> thread_ptr \<Rightarrow> System" where
  "timer_expires st t =
     (if sleep_timer st t then Wakeup (st\<lparr>sleep_timer := (sleep_timer st)(t := False)\<rparr>) t
      else st)"

subsection \<open>Calls and runs\<close>

text \<open>
  The entry points of the arbiter as one step function. A wait is two steps: the call,
  whose outcome is \<open>None\<close> when the thread parks, and the continuation of the parked
  thread once it runs again. \<open>Timer\<close> is the expiry of a parked thread's time event.
\<close>

datatype call =
    Call_Signal VAddr s32
  | Call_SignalAndIncrementIfEqual VAddr s32 s32
  | Call_SignalAndModifyByWaitingCountIfEqual VAddr s32 s32
  | Call_WaitIfLessThan thread_ptr VAddr s32 bool s64
  | Call_WaitIfEqual thread_ptr VAddr s32 s64
  | Resume thread_ptr
  | Timer thread_ptr

fun exec :: "System \<Rightarrow> call \<Rightarrow> ResultCode option \<times> System" where
  "exec st (Call_Signal addr count) =
     (let r = Signal st addr count in (Some (fst r), snd r))"
| "exec st (Call_SignalAndIncrementIfEqual addr v count) =
     (let r = SignalAndIncrementIfEqual st addr v count in (Some (fst r), snd r))"
| "exec st (Call_SignalAndModifyByWaitingCountIfEqual addr v count) =
     (let r = SignalAndModifyByWaitingCountIfEqual st addr v count in (Some (fst r), snd r))"
| "exec st (Call_WaitIfLessThan cur_thread addr v decrement timeout) =
     WaitIfLessThan_begin st cur_thread addr v decrement timeout"
| "exec st (Call_WaitIfEqual cur_thread addr v timeout) =
     WaitIfEqual_begin st cur_thread addr v timeout"
| "exec st (Resume cur_thread) =
     (let r = Wait_finish st cur_thread in (Some (fst r), snd r))"
| "exec st (Timer t) = (None, timer_expires st t)"

fun run :: "System \<Rightarrow> call list \<Rightarrow> System" where
  "run st [] = st"
| "run st (c # cs) = run (snd (exec st c)) cs"

text \<open>
  A thread that calls a wait is running, so it is not enrolled: \<^verbatim>\<open>SetAddressArbiter\<close>
  is entered with the tree pointer unset.
\<close>

fun callable :: "System \<Rightarrow> call \<Rightarrow> bool" where
  "callable st (Call_WaitIfLessThan cur_thread addr v decrement timeout) =
     (\<not> IsWaitingForAddressArbiter st cur_thread)"
| "callable st (Call_WaitIfEqual cur_thread addr v timeout) =
     (\<not> IsWaitingForAddressArbiter st cur_thread)"
| "callable st c = True"

subsection \<open>Notions used in the statements\<close>

text \<open>The threads enrolled under an address, in iteration order.\<close>

definition waiters :: "System \<Rightarrow> VAddr \<Rightarrow> thread_ptr list" where
  "waiters st addr = filter (\<lambda>t. GetAddressArbiterKey st t = addr) (thread_tree st)"

text \<open>
  The iteration order of the tree agrees with the keys and priorities that the threads
  store: no thread comes before a thread that is less.
\<close>

definition tree_ordered :: "System \<Rightarrow> bool" where
  "tree_ordered st =
     sorted_wrt (\<lambda>a b. \<not> thread_less (threads st b) (threads st a)) (thread_tree st)"

text \<open>
  The invariant of the arbiter: a thread is in the tree once at most, it is in the tree
  exactly when its tree pointer is set, and it sits where its stored key puts it.
\<close>

definition arbiter_inv :: "System \<Rightarrow> bool" where
  "arbiter_inv st \<longleftrightarrow>
     distinct (thread_tree st) \<and>
     (\<forall>t. t \<in> set (thread_tree st) \<longleftrightarrow> IsWaitingForAddressArbiter st t) \<and>
     tree_ordered st"

text \<open>Priorities of enrolled threads are not negative, so that \<open>-1\<close> is below them.\<close>

definition valid_priorities :: "System \<Rightarrow> bool" where
  "valid_priorities st = (\<forall>t \<in> set (thread_tree st). 0 \<le>s GetPriority st t)"

text \<open>No other core writes the reserved cell before the next exclusive store.\<close>

definition quiet :: "System \<Rightarrow> bool" where
  "quiet st = (case interference st of Some w # rest \<Rightarrow> False | _ \<Rightarrow> True)"

text \<open>The part of the state that belongs to the scheduler and the arbiter.\<close>

definition kernel_part ::
    "System \<Rightarrow> (thread_ptr \<Rightarrow> KThread) \<times> thread_ptr list \<times> thread_ptr list \<times> (thread_ptr \<Rightarrow> bool)" where
  "kernel_part st = (threads st, thread_tree st, wakeups st, sleep_timer st)"

text \<open>What being woken by a signal does to a thread object.\<close>

definition woken :: "KThread \<Rightarrow> KThread" where
  "woken th =
     th\<lparr>wait_result := RESULT_SUCCESS,
        thread_state := (if thread_state th = Waiting then Runnable else thread_state th),
        address_arbiter_tree := False\<rparr>"

text \<open>The size of the batch that a signal wakes among \<open>k\<close> waiters.\<close>

definition batch :: "s32 \<Rightarrow> s32 \<Rightarrow> nat \<Rightarrow> nat" where
  "batch count num_waiters k =
     (if count \<le>s 0 then k else min k (nat (sint count - sint num_waiters)))"

text \<open>
  Nothing of a wait's enrollment has happened between two states: the tree, the tree
  pointers and keys of the threads, the timers and the record of wakeups are the same.
\<close>

definition not_enrolled :: "System \<Rightarrow> System \<Rightarrow> bool" where
  "not_enrolled st st' \<longleftrightarrow>
     thread_tree st' = thread_tree st \<and>
     IsWaitingForAddressArbiter st' = IsWaitingForAddressArbiter st \<and>
     GetAddressArbiterKey st' = GetAddressArbiterKey st \<and>
     sleep_timer st' = sleep_timer st \<and> wakeups st' = wakeups st"

subsection \<open>Example states\<close>

text \<open>
  A thread that runs and waits for nothing, and a system of such threads with an empty
  tree and zeroed memory.
\<close>

definition idle_thread :: KThread where
  "idle_thread =
     \<lparr>priority = 0, address_arbiter_key = 0, address_arbiter_tree = False,
      wait_result = RESULT_SUCCESS, thread_state = Running,
      termination_requested = False, wait_reason = NoReason\<rparr>"

definition boot :: System where
  "boot =
     \<lparr>memory = (\<lambda>a. 0), exclusive = None, interference = [],
      threads = (\<lambda>t. idle_thread), thread_tree = [], wakeups = [],
      sleep_timer = (\<lambda>t. False)\<rparr>"

text \<open>A thread of the given priority that is enrolled under the given address.\<close>

definition parked_thread :: "s32 \<Rightarrow> VAddr \<Rightarrow> KThread" where
  "parked_thread p addr =
     \<lparr>priority = p, address_arbiter_key = addr, address_arbiter_tree = True,
      wait_result = ResultTimedOut, thread_state = Waiting,
      termination_requested = False, wait_reason = Arbitration\<rparr>"

text \<open>
  Threads 1 and 3 of priority 20 and thread 2 of priority 30, before and after they wait
  on the cell at 0x2000, which holds 0.
\<close>

definition three_threads :: System where
  "three_threads =
     boot\<lparr>threads := (\<lambda>t. idle_thread)
            (1 := idle_thread\<lparr>priority := 20\<rparr>,
             2 := idle_thread\<lparr>priority := 30\<rparr>,
             3 := idle_thread\<lparr>priority := 20\<rparr>)\<rparr>"

definition three_waiters :: System where
  "three_waiters =
     boot\<lparr>threads := (\<lambda>t. idle_thread)
            (1 := parked_thread 20 0x2000,
             2 := parked_thread 30 0x2000,
             3 := parked_thread 20 0x2000),
          thread_tree := [1, 3, 2]\<rparr>"

text \<open>Two threads that wait on the cell at 0x5000, which holds 10.\<close>

definition two_waiters :: System where
  "two_waiters =
     boot\<lparr>memory := (\<lambda>a. 0)(0x5000 := 10),
          threads := (\<lambda>t. idle_thread)
            (1 := parked_thread 20 0x5000,
             2 := parked_thread 20 0x5000),
          thread_tree := [1, 2]\<rparr>"


section \<open>Properties\<close>

subsection \<open>The operations on user memory\<close>

lemma DecrementIfLessThan_out: "fst (snd (DecrementIfLessThan st a v)) = memory st a"
  by (subst DecrementIfLessThan.simps) (simp add: Let_def ExclusiveRead32_def)

lemma UpdateIfEqual_out: "fst (snd (UpdateIfEqual st a v n)) = memory st a"
  by (subst UpdateIfEqual.simps) (simp add: Let_def ExclusiveRead32_def)

lemma DecrementIfLessThan_ok: "fst (DecrementIfLessThan st a v)"
  by (subst DecrementIfLessThan.simps) (simp add: Let_def)

lemma UpdateIfEqual_ok: "fst (UpdateIfEqual st a v n)"
  by (subst UpdateIfEqual.simps) (simp add: Let_def)

lemma kernel_part_ExclusiveWrite32:
  "kernel_part (snd (ExclusiveWrite32 st a w)) = kernel_part st"
  by (simp add: ExclusiveWrite32_def other_cores_def kernel_part_def Let_def
           split: list.splits option.splits)

lemma kernel_part_ExclusiveRead32:
  "kernel_part (snd (ExclusiveRead32 st a)) = kernel_part st"
  by (simp add: ExclusiveRead32_def kernel_part_def)

lemma kernel_part_DecrementIfLessThan:
  "kernel_part (snd (snd (DecrementIfLessThan st a v))) = kernel_part st"
proof (induction st a v rule: DecrementIfLessThan.induct)
  case (1 st a v)
  show ?case
    apply (subst DecrementIfLessThan.simps)
    using 1 [OF refl refl _ refl refl]
    by (simp add: Let_def kernel_part_ExclusiveWrite32 kernel_part_ExclusiveRead32)
       (simp add: ClearExclusive_def ExclusiveRead32_def kernel_part_def)
qed

lemma kernel_part_UpdateIfEqual:
  "kernel_part (snd (snd (UpdateIfEqual st a v n))) = kernel_part st"
proof (induction st a v n rule: UpdateIfEqual.induct)
  case (1 st a v n)
  show ?case
    apply (subst UpdateIfEqual.simps)
    using 1 [OF refl refl _ refl]
    by (simp add: Let_def kernel_part_ExclusiveWrite32 kernel_part_ExclusiveRead32)
       (simp add: ClearExclusive_def ExclusiveRead32_def kernel_part_def)
qed

lemma DecrementIfLessThan_quiet:
  "quiet st \<Longrightarrow> memory st a <s v \<Longrightarrow>
   DecrementIfLessThan st a v =
     (True, memory st a,
      st\<lparr>memory := (memory st)(a := memory st a - 1), exclusive := None,
         interference := tl (interference st)\<rparr>)"
  by (subst DecrementIfLessThan.simps)
     (auto simp: quiet_def Let_def ExclusiveRead32_def ExclusiveWrite32_def other_cores_def
           split: list.splits option.splits)


lemma UpdateIfEqual_quiet:
  "quiet st \<Longrightarrow> memory st a = v \<Longrightarrow>
   UpdateIfEqual st a v n =
     (True, v,
      st\<lparr>memory := (memory st)(a := n), exclusive := None,
         interference := tl (interference st)\<rparr>)"
  by (subst UpdateIfEqual.simps)
     (auto simp: quiet_def Let_def ExclusiveRead32_def ExclusiveWrite32_def other_cores_def
           split: list.splits option.splits)

lemma UpdateIfEqual_not_equal:
  "memory st a \<noteq> v \<Longrightarrow>
   UpdateIfEqual st a v n = (True, memory st a, st\<lparr>exclusive := None\<rparr>)"
  by (subst UpdateIfEqual.simps)
     (simp add: Let_def ExclusiveRead32_def ClearExclusive_def)

subsection \<open>The batch of a signal\<close>

lemma sint_succ: "n <s (c::32 word) \<Longrightarrow> sint (n + 1) = sint n + 1"
proof -
  assume "n <s c"
  then have "sint n < sint c" by (simp add: word_sless_alt)
  moreover have "sint c < 2 ^ 31" using sint_lt [of c] by simp
  moreover have "- (2 ^ 31) \<le> sint n" using sint_ge [of n] by simp
  ultimately show ?thesis
    by (simp add: sint_word_ariths signed_take_bit_int_eq_self)
qed

lemma wake_one_eq:
  "thread_tree st = pre @ w # rest \<Longrightarrow>
   wake_one st (length pre) =
     st\<lparr>threads := (threads st)(w := woken (threads st w)),
        thread_tree := pre @ rest, wakeups := wakeups st @ [w]\<rparr>"
  by (cases "threads st w"; cases "thread_state (threads st w)")
     (simp_all add: wake_one_def Let_def SetSyncedObject_def Wakeup_def SetState_def
       tree_erase_def ClearAddressArbiter_def update_thread_def woken_def nth_append)

lemma batch_Nil [simp]: "batch count n 0 = 0"
  by (simp add: batch_def)

lemma batch_stop: "\<not> (count \<le>s 0 \<or> n <s count) \<Longrightarrow> batch count n k = 0"
  by (auto simp: batch_def word_sle_eq word_sless_alt)

lemma batch_step:
  "count \<le>s 0 \<or> n <s count \<Longrightarrow> batch count n (Suc k) = Suc (batch count (n + 1) k)"
  by (auto simp: batch_def sint_succ word_sle_eq word_sless_alt)

lemma woken_idem [simp]: "woken (woken th) = woken th"
  by (simp add: woken_def)

lemma key_woken [simp]: "address_arbiter_key (woken th) = address_arbiter_key th"
  by (simp add: woken_def)

lemma signal_loop_closed:
  "thread_tree st = pre @ ws @ post \<Longrightarrow>
   \<forall>t \<in> set ws. GetAddressArbiterKey st t = addr \<Longrightarrow>
   post = [] \<or> GetAddressArbiterKey st (hd post) \<noteq> addr \<Longrightarrow>
   signal_loop st addr count n (length pre) =
     st\<lparr>threads := (\<lambda>t. if t \<in> set (take (batch count n (length ws)) ws)
                         then woken (threads st t) else threads st t),
        thread_tree := pre @ drop (batch count n (length ws)) ws @ post,
        wakeups := wakeups st @ take (batch count n (length ws)) ws\<rparr>"
proof (induction ws arbitrary: st n)
  case Nil
  then have "\<not> (length pre < tree_end st \<and> (count \<le>s 0 \<or> n <s count) \<and>
         GetAddressArbiterKey st (thread_tree st ! length pre) = addr)"
    by (cases post) (auto simp: tree_end_def nth_append)
  then have "signal_loop st addr count n (length pre) = st"
    by (subst signal_loop.simps) auto
  with Nil show ?case by simp
next
  case (Cons w ws)
  show ?case
  proof (cases "count \<le>s 0 \<or> n <s count")
    case False
    then have "signal_loop st addr count n (length pre) = st"
      by (subst signal_loop.simps) auto
    with False Cons.prems show ?thesis by (simp add: batch_stop)
  next
    case True
    let ?st = "wake_one st (length pre)"
    have w1: "?st = st\<lparr>threads := (threads st)(w := woken (threads st w)),
        thread_tree := pre @ ws @ post, wakeups := wakeups st @ [w]\<rparr>"
      using Cons.prems(1) by (simp add: wake_one_eq)
    have cond: "length pre < tree_end st \<and> (count \<le>s 0 \<or> n <s count) \<and>
         GetAddressArbiterKey st (thread_tree st ! length pre) = addr"
      using True Cons.prems by (simp add: tree_end_def nth_append)
    then have step: "signal_loop st addr count n (length pre) =
        signal_loop ?st addr count (n + 1) (length pre)"
      by (subst signal_loop.simps) simp
    have tree: "thread_tree ?st = pre @ ws @ post" by (simp add: w1)
    have keys: "\<forall>t \<in> set ws. GetAddressArbiterKey ?st t = addr"
      using Cons.prems(2) by (simp add: w1 GetAddressArbiterKey_def)
    have post: "post = [] \<or> GetAddressArbiterKey ?st (hd post) \<noteq> addr"
      using Cons.prems(3) by (auto simp add: w1 GetAddressArbiterKey_def)
    note IH = Cons.IH [OF tree keys post, of "n + 1"]
    have "signal_loop st addr count n (length pre) =
        signal_loop ?st addr count (n + 1) (length pre)"
      by (rule step)
    also note IH
    also have "?st\<lparr>threads := (\<lambda>t. if t \<in> set (take (batch count (n + 1) (length ws)) ws)
                         then woken (threads ?st t) else threads ?st t),
        thread_tree := pre @ drop (batch count (n + 1) (length ws)) ws @ post,
        wakeups := wakeups ?st @ take (batch count (n + 1) (length ws)) ws\<rparr> =
      st\<lparr>threads := (\<lambda>t. if t \<in> set (take (batch count n (length (w # ws))) (w # ws))
                         then woken (threads st t) else threads st t),
        thread_tree := pre @ drop (batch count n (length (w # ws))) (w # ws) @ post,
        wakeups := wakeups st @ take (batch count n (length (w # ws))) (w # ws)\<rparr>"
      unfolding w1 by (auto simp: fun_eq_iff batch_step [OF True])
    finally show ?thesis .
  qed
qed


lemma sorted_takeWhile_less:
  fixes f :: "'a \<Rightarrow> 'k::linorder"
  shows "sorted (map f xs) \<Longrightarrow> takeWhile (\<lambda>x. f x < a) xs = filter (\<lambda>x. f x < a) xs"
proof (induction xs)
  case Nil
  show ?case by simp
next
  case (Cons x xs)
  from Cons.prems have le: "\<forall>y \<in> set xs. f x \<le> f y" by simp
  show ?case
  proof (cases "f x < a")
    case True
    with Cons show ?thesis by simp
  next
    case False
    with le have "filter (\<lambda>x. f x < a) xs = []"
      by (auto simp: filter_empty_conv)
    with False show ?thesis by simp
  qed
qed

lemma sorted_key_split:
  fixes f :: "'a \<Rightarrow> 'k::linorder"
  shows "sorted (map f xs) \<Longrightarrow>
    filter (\<lambda>x. f x < a) xs @ filter (\<lambda>x. f x = a) xs @ filter (\<lambda>x. a < f x) xs = xs"
proof (induction xs)
  case Nil
  show ?case by simp
next
  case (Cons x xs)
  then have IH: "filter (\<lambda>x. f x < a) xs @ filter (\<lambda>x. f x = a) xs @ filter (\<lambda>x. a < f x) xs = xs"
    by simp
  from Cons.prems have le: "\<forall>y \<in> set xs. f x \<le> f y" by simp
  consider "f x < a" | "f x = a" | "a < f x" by (rule linorder_cases)
  then show ?case
  proof cases
    case 1
    then show ?thesis using IH by auto
  next
    case 2
    with le have none: "filter (\<lambda>x. f x < a) xs = []"
      by (auto simp: filter_empty_conv)
    show ?thesis using 2 IH by (auto simp: none)
  next
    case 3
    with le have none: "filter (\<lambda>x. f x < a) xs = []" "filter (\<lambda>x. f x = a) xs = []"
      by (auto simp: filter_empty_conv)
    show ?thesis using 3 IH by (auto simp: none)
  qed
qed

lemma tree_ordered_keys:
  assumes "tree_ordered st"
  shows "sorted (map (GetAddressArbiterKey st) (thread_tree st))"
proof -
  have "sorted_wrt (\<lambda>a b. GetAddressArbiterKey st a \<le> GetAddressArbiterKey st b) (thread_tree st)"
    using assms unfolding tree_ordered_def
    by (rule sorted_wrt_mono_rel [rotated])
       (auto simp: thread_less_def GetAddressArbiterKey_def)
  then show ?thesis by (simp add: sorted_map)
qed

lemma nfind_light_keys:
  assumes "valid_priorities st"
  shows "nfind_light st (addr, - 1) =
    length (takeWhile (\<lambda>t. GetAddressArbiterKey st t < addr) (thread_tree st))"
proof -
  have "takeWhile (\<lambda>t. \<not> light_before (addr, - 1) (threads st t)) (thread_tree st) =
        takeWhile (\<lambda>t. GetAddressArbiterKey st t < addr) (thread_tree st)"
  proof (rule takeWhile_cong [OF refl])
    fix t assume "t \<in> set (thread_tree st)"
    with assms have "0 \<le>s priority (threads st t)"
      by (simp add: valid_priorities_def GetPriority_def)
    then have "- 1 \<le>s priority (threads st t)"
      by (simp add: word_sle_eq)
    then show "(\<not> light_before (addr, - 1) (threads st t)) = (GetAddressArbiterKey st t < addr)"
      by (auto simp: light_before_def GetAddressArbiterKey_def)
  qed
  then show ?thesis by (simp add: nfind_light_def)
qed

lemma tree_split:
  assumes "tree_ordered st" "valid_priorities st"
  shows "\<exists>pre post. thread_tree st = pre @ waiters st addr @ post \<and>
           length pre = nfind_light st (addr, - 1) \<and>
           (\<forall>t \<in> set pre. GetAddressArbiterKey st t < addr) \<and>
           (\<forall>t \<in> set post. addr < GetAddressArbiterKey st t)"
proof -
  let ?k = "GetAddressArbiterKey st"
  note s = sorted_key_split [OF tree_ordered_keys [OF assms(1)], of addr]
  note tw = sorted_takeWhile_less [OF tree_ordered_keys [OF assms(1)], of addr]
  let ?pre = "filter (\<lambda>t. ?k t < addr) (thread_tree st)"
  let ?post = "filter (\<lambda>t. addr < ?k t) (thread_tree st)"
  have "thread_tree st = ?pre @ waiters st addr @ ?post"
    using s by (simp add: waiters_def)
  moreover have "length ?pre = nfind_light st (addr, - 1)"
    using tw by (simp add: nfind_light_keys [OF assms(2)])
  ultimately show ?thesis by (intro exI [of _ ?pre] exI [of _ ?post]) simp
qed

lemma filter_not_in_take:
  "distinct xs \<Longrightarrow> filter (\<lambda>t. t \<notin> set (take m xs)) xs = drop m xs"
proof -
  assume d: "distinct xs"
  have "distinct (take m xs @ drop m xs)" using d by simp
  then have disj: "set (take m xs) \<inter> set (drop m xs) = {}" by (simp only: distinct_append)
  have a: "filter (\<lambda>t. t \<notin> set (take m xs)) (take m xs) = []"
    by (simp add: filter_empty_conv)
  have b: "filter (\<lambda>t. t \<notin> set (take m xs)) (drop m xs) = drop m xs"
    using disj by (auto simp: filter_id_conv)
  have "filter (\<lambda>t. t \<notin> set (take m xs)) xs =
        filter (\<lambda>t. t \<notin> set (take m xs)) (take m xs) @
        filter (\<lambda>t. t \<notin> set (take m xs)) (drop m xs)"
    by (simp only: filter_append [symmetric] append_take_drop_id)
  then show ?thesis by (simp only: a b append_Nil)
qed

lemma signal_loop_batch:
  assumes "tree_ordered st" "valid_priorities st" "distinct (thread_tree st)"
  shows "signal_loop st addr count 0 (nfind_light st (addr, - 1)) =
     st\<lparr>threads := (\<lambda>t. if t \<in> set (take (batch count 0 (length (waiters st addr))) (waiters st addr))
                         then woken (threads st t) else threads st t),
        thread_tree := filter (\<lambda>t. t \<notin> set (take (batch count 0 (length (waiters st addr)))
                                   (waiters st addr))) (thread_tree st),
        wakeups := wakeups st @ take (batch count 0 (length (waiters st addr))) (waiters st addr)\<rparr>"
proof -
  let ?W = "waiters st addr"
  let ?m = "batch count 0 (length ?W)"
  from tree_split [OF assms(1,2), of addr] obtain pre post where
    tree: "thread_tree st = pre @ ?W @ post" and
    len: "length pre = nfind_light st (addr, - 1)" and
    pre: "\<forall>t \<in> set pre. GetAddressArbiterKey st t < addr" and
    post: "\<forall>t \<in> set post. addr < GetAddressArbiterKey st t"
    by blast
  have keys: "\<forall>t \<in> set ?W. GetAddressArbiterKey st t = addr"
    by (simp add: waiters_def)
  have stop: "post = [] \<or> GetAddressArbiterKey st (hd post) \<noteq> addr"
    using post by (cases post) auto
  have d: "distinct (pre @ ?W @ post)" using assms(3) tree by simp
  then have dW: "distinct ?W" and
    disj: "set pre \<inter> set ?W = {}" "set post \<inter> set ?W = {}"
    by auto
  have "filter (\<lambda>t. t \<notin> set (take ?m ?W)) (pre @ ?W @ post) = pre @ drop ?m ?W @ post"
  proof -
    have "filter (\<lambda>t. t \<notin> set (take ?m ?W)) pre = pre"
      using disj(1) by (auto simp: filter_id_conv dest: in_set_takeD)
    moreover have "filter (\<lambda>t. t \<notin> set (take ?m ?W)) post = post"
      using disj(2) by (auto simp: filter_id_conv dest: in_set_takeD)
    ultimately show ?thesis
      by (simp add: filter_not_in_take [OF dW])
  qed
  then have "filter (\<lambda>t. t \<notin> set (take ?m ?W)) (thread_tree st) = pre @ drop ?m ?W @ post"
    using tree by simp
  then show ?thesis
    using signal_loop_closed [OF tree keys stop, of count 0] len by simp
qed


lemma batch_0: "batch count 0 k = (if 0 <s count then min k (nat (sint count)) else k)"
  by (auto simp: batch_def word_sle_eq word_sless_alt)

lemma waiters_priority_sorted:
  assumes "tree_ordered st"
  shows "sorted_wrt (\<lambda>a b. GetPriority st a \<le>s GetPriority st b) (waiters st addr)"
proof -
  have "sorted_wrt (\<lambda>a b. \<not> thread_less (threads st b) (threads st a)) (waiters st addr)"
    using assms unfolding tree_ordered_def waiters_def by (rule sorted_wrt_filter)
  then show ?thesis
    by (rule sorted_wrt_mono_rel [rotated])
       (auto simp: waiters_def thread_less_def GetAddressArbiterKey_def GetPriority_def)
qed

subsection \<open>First in, first out among equal priorities\<close>

lemma lex_between:
  fixes ka kb kc :: "'k::linorder" and pa pb pc :: int
  assumes "ka < kc \<or> (ka = kc \<and> pa < pc)"
  shows "(ka < kb \<or> (ka = kb \<and> pa < pb)) \<or> (kb < kc \<or> (kb = kc \<and> pb < pc))"
proof (cases ka kb rule: linorder_cases)
  case less
  then show ?thesis by simp
next
  case equal
  with assms show ?thesis by auto
next
  case greater
  with assms have "kb < kc" by auto
  then show ?thesis by simp
qed

lemma thread_less_cases: "thread_less a c \<Longrightarrow> thread_less a b \<or> thread_less b c"
  unfolding thread_less_def word_sless_alt by (rule lex_between)

lemma dropWhile_all_after:
  fixes lt :: "'a \<Rightarrow> 'a \<Rightarrow> bool"
  assumes between: "\<And>a b c. lt a c \<Longrightarrow> lt a b \<or> lt b c"
  shows "sorted_wrt (\<lambda>a b. \<not> lt b a) xs \<Longrightarrow>
         \<forall>u \<in> set (dropWhile (\<lambda>u. \<not> lt t u) xs). lt t u"
proof (induction xs)
  case Nil
  show ?case by simp
next
  case (Cons x xs)
  show ?case
  proof (cases "lt t x")
    case True
    have rest: "\<forall>u \<in> set xs. lt t u"
    proof
      fix u assume "u \<in> set xs"
      with Cons.prems have "\<not> lt u x" by simp
      with between [OF True, of u] show "lt t u" by blast
    qed
    from True have "dropWhile (\<lambda>u. \<not> lt t u) (x # xs) = x # xs" by simp
    with True rest show ?thesis by (simp only: set_simps ball_simps)
  next
    case False
    then have same: "dropWhile (\<lambda>u. \<not> lt t u) (x # xs) = dropWhile (\<lambda>u. \<not> lt t u) xs"
      by simp
    from Cons.prems have "sorted_wrt (\<lambda>a b. \<not> lt b a) xs" by simp
    then show ?thesis unfolding same by (rule Cons.IH)
  qed
qed

lemma park_fields:
  "threads (park st cur addr timeout) =
     (threads st)(cur := threads st cur
        \<lparr>address_arbiter_tree := True, address_arbiter_key := addr,
         thread_state := Waiting, wait_reason := Arbitration\<rparr>)"
  "thread_tree (park st cur addr timeout) =
     thread_tree (tree_insert (SetAddressArbiter st cur addr) cur)"
  by (simp_all add: park_def Let_def SetAddressArbiter_def tree_insert_def SetState_def
      SetWaitReasonForDebugging_def update_thread_def)

text \<open>
  A thread that parks is put into the tree behind every thread that is not after it: the
  threads behind it are strictly after it. In particular it comes behind the waiters of
  its own address that have its own priority.
\<close>

lemma enrolls_behind:
  fixes st :: System and cur :: thread_ptr and addr :: VAddr and timeout :: s64
  defines "st' \<equiv> park st cur addr timeout"
  assumes inv: "arbiter_inv st" and out: "\<not> IsWaitingForAddressArbiter st cur"
  shows "\<exists>xs ys. thread_tree st = xs @ ys \<and> thread_tree st' = xs @ cur # ys \<and>
           (\<forall>u \<in> set xs. \<not> thread_less (threads st' cur) (threads st' u)) \<and>
           (\<forall>u \<in> set ys. thread_less (threads st' cur) (threads st' u))"
proof -
  let ?st1 = "SetAddressArbiter st cur addr"
  let ?lt = "\<lambda>a b. thread_less (threads ?st1 a) (threads ?st1 b)"
  let ?tree = "thread_tree st"
  let ?xs = "takeWhile (\<lambda>u. \<not> ?lt cur u) ?tree"
  let ?ys = "dropWhile (\<lambda>u. \<not> ?lt cur u) ?tree"
  from inv have mem: "\<And>t. t \<in> set ?tree \<longleftrightarrow> address_arbiter_tree (threads st t)"
    and ord: "sorted_wrt (\<lambda>a b. \<not> thread_less (threads st b) (threads st a)) ?tree"
    by (simp_all add: arbiter_inv_def tree_ordered_def IsWaitingForAddressArbiter_def)
  from out mem have new: "cur \<notin> set ?tree"
    by (simp add: IsWaitingForAddressArbiter_def)
  have same: "threads ?st1 t = threads st t" if "t \<in> set ?tree" for t
    using that new by (auto simp: SetAddressArbiter_def update_thread_def)
  have ord1: "sorted_wrt (\<lambda>a b. \<not> ?lt b a) ?tree"
    using ord by (rule sorted_wrt_mono_rel [rotated]) (simp add: same)
  have less: "\<And>a b. thread_less (threads st' a) (threads st' b) = ?lt a b"
    by (simp add: st'_def thread_less_def park_fields SetAddressArbiter_def update_thread_def)
  have b: "thread_tree st' = ?xs @ cur # ?ys"
    by (simp add: st'_def park_fields tree_insert_def SetAddressArbiter_def update_thread_def)
  have c: "\<forall>u \<in> set ?xs. \<not> ?lt cur u"
    by (auto dest: set_takeWhileD)
  have d: "\<forall>u \<in> set ?ys. ?lt cur u"
    by (rule dropWhile_all_after [where lt = ?lt and t = cur, OF thread_less_cases ord1])
  show ?thesis
  proof (intro exI conjI)
    show "thread_tree st = ?xs @ ?ys" by simp
    show "thread_tree st' = ?xs @ cur # ?ys" by (rule b)
    show "\<forall>u \<in> set ?xs. \<not> thread_less (threads st' cur) (threads st' u)"
      unfolding less by (rule c)
    show "\<forall>u \<in> set ?ys. thread_less (threads st' cur) (threads st' u)"
      unfolding less by (rule d)
  qed
qed

text \<open>
  Claim C1. In a state that satisfies the invariant of the tree, with \<open>k\<close> threads
  waiting on \<open>addr\<close>, \<^verbatim>\<open>Signal(addr, count)\<close> returns success and calls \<^verbatim>\<open>Wakeup\<close> on
  the first \<open>min k count\<close> of them when \<open>count\<close> is positive and on all \<open>k\<close> otherwise, in
  the iteration order of the tree, which is by priority among the waiters of one address;
  a thread that enrolls is put behind the threads of its address and priority that are
  enrolled already, so that equal priorities are served first in, first out.
  Each thread woken has the wait result success, is runnable if it was waiting, is out of
  the tree and has its tree pointer reset. The other waiters on \<open>addr\<close> stay in order, the waiters on the
  other addresses stay, no other thread object changes and memory is not touched.
\<close>

theorem Signal_exact:
  fixes st :: System and addr :: VAddr and count :: s32
  defines "k \<equiv> length (waiters st addr)"
  defines "m \<equiv> (if 0 <s count then min k (nat (sint count)) else k)"
  defines "ws \<equiv> take m (waiters st addr)"
  defines "st' \<equiv> snd (Signal st addr count)"
  assumes inv: "arbiter_inv st" and prio: "valid_priorities st"
  shows "fst (Signal st addr count) = RESULT_SUCCESS \<and>
         length ws = m \<and>
         wakeups st' = wakeups st @ ws \<and>
         (\<forall>t \<in> set ws. GetWaitResult st' t = RESULT_SUCCESS \<and>
                        thread_state (threads st' t) =
                          (if thread_state (threads st t) = Waiting then Runnable
                           else thread_state (threads st t)) \<and>
                        \<not> IsWaitingForAddressArbiter st' t \<and>
                        t \<notin> set (thread_tree st')) \<and>
         thread_tree st' = filter (\<lambda>t. t \<notin> set ws) (thread_tree st) \<and>
         waiters st' addr = drop m (waiters st addr) \<and>
         (\<forall>a. a \<noteq> addr \<longrightarrow> waiters st' a = waiters st a) \<and>
         (\<forall>t. t \<notin> set ws \<longrightarrow> threads st' t = threads st t) \<and>
         memory st' = memory st \<and>
         sorted_wrt (\<lambda>a b. GetPriority st a \<le>s GetPriority st b) (waiters st addr) \<and>
         (\<forall>cur a timeout. \<not> IsWaitingForAddressArbiter st cur \<longrightarrow>
            (\<exists>xs ys. thread_tree st = xs @ ys \<and>
               thread_tree (park st cur a timeout) = xs @ cur # ys \<and>
               (\<forall>u \<in> set ys. thread_less (threads (park st cur a timeout) cur)
                                        (threads (park st cur a timeout) u))))"
proof -
  from inv have ord: "tree_ordered st" and d: "distinct (thread_tree st)"
    by (simp_all add: arbiter_inv_def)
  have m: "batch count 0 (length (waiters st addr)) = m"
    by (simp add: batch_0 m_def k_def)
  have st': "st' = st\<lparr>threads := (\<lambda>t. if t \<in> set ws then woken (threads st t) else threads st t),
        thread_tree := filter (\<lambda>t. t \<notin> set ws) (thread_tree st),
        wakeups := wakeups st @ ws\<rparr>"
    using signal_loop_batch [OF ord prio d, of addr count]
    by (simp add: st'_def Signal_def m ws_def)
  have keys: "GetAddressArbiterKey st' = GetAddressArbiterKey st"
    by (auto simp: st' GetAddressArbiterKey_def fun_eq_iff)
  have dW: "distinct (waiters st addr)"
    using d by (simp add: waiters_def)
  have ws_keys: "\<forall>t \<in> set ws. GetAddressArbiterKey st t = addr"
    by (auto simp: ws_def waiters_def dest: in_set_takeD)
  have c1: "fst (Signal st addr count) = RESULT_SUCCESS"
    by (simp add: Signal_def)
  have c2: "length ws = m"
    by (simp add: ws_def m_def k_def)
  have c3: "wakeups st' = wakeups st @ ws"
    by (simp add: st')
  have c4: "\<forall>t \<in> set ws. GetWaitResult st' t = RESULT_SUCCESS \<and>
                        thread_state (threads st' t) =
                          (if thread_state (threads st t) = Waiting then Runnable
                           else thread_state (threads st t)) \<and>
                        \<not> IsWaitingForAddressArbiter st' t \<and>
                        t \<notin> set (thread_tree st')"
    by (simp add: st' GetWaitResult_def IsWaitingForAddressArbiter_def woken_def)
  have c5: "thread_tree st' = filter (\<lambda>t. t \<notin> set ws) (thread_tree st)"
    by (simp add: st')
  have "waiters st' addr = filter (\<lambda>t. t \<notin> set ws) (waiters st addr)"
    unfolding waiters_def keys c5 by (simp add: conj_commute)
  then have c6: "waiters st' addr = drop m (waiters st addr)"
    by (simp add: ws_def filter_not_in_take [OF dW])
  have c7: "\<forall>a. a \<noteq> addr \<longrightarrow> waiters st' a = waiters st a"
  proof (intro allI impI)
    fix a assume "a \<noteq> addr"
    with ws_keys have "\<And>t. GetAddressArbiterKey st t = a \<Longrightarrow> t \<notin> set ws" by auto
    then show "waiters st' a = waiters st a"
      unfolding waiters_def keys c5 by (auto intro: filter_cong)
  qed
  have c8: "\<forall>t. t \<notin> set ws \<longrightarrow> threads st' t = threads st t"
    by (simp add: st')
  have c9: "memory st' = memory st"
    by (simp add: st')
  note c10 = waiters_priority_sorted [OF ord, of addr]
  have c11: "\<forall>cur a timeout. \<not> IsWaitingForAddressArbiter st cur \<longrightarrow>
            (\<exists>xs ys. thread_tree st = xs @ ys \<and>
               thread_tree (park st cur a timeout) = xs @ cur # ys \<and>
               (\<forall>u \<in> set ys. thread_less (threads (park st cur a timeout) cur)
                                        (threads (park st cur a timeout) u)))"
  proof (intro allI impI)
    fix cur a timeout
    assume "\<not> IsWaitingForAddressArbiter st cur"
    from enrolls_behind [OF inv this, of a timeout]
    show "\<exists>xs ys. thread_tree st = xs @ ys \<and>
               thread_tree (park st cur a timeout) = xs @ cur # ys \<and>
               (\<forall>u \<in> set ys. thread_less (threads (park st cur a timeout) cur)
                                        (threads (park st cur a timeout) u))"
      by blast
  qed
  from c1 c2 c3 c4 c5 c6 c7 c8 c9 c10 c11 show ?thesis by blast
qed


text \<open>
  Threads 1 (priority 20), 2 (priority 30) and 3 (priority 20) wait in this order on the
  same cell: the tree holds them in the order 1, 3, 2.
\<close>

lemma three_waiters_reached:
  "run three_threads
     [Call_WaitIfEqual 1 0x2000 0 (- 1), Call_WaitIfEqual 2 0x2000 0 (- 1),
      Call_WaitIfEqual 3 0x2000 0 (- 1)] = three_waiters"
  by (simp add: three_threads_def three_waiters_def boot_def idle_thread_def parked_thread_def
      WaitIfEqual_begin_def IsTerminationRequested_def SetSyncedObject_def update_thread_def
      ReadFromUser_def Read32_def park_def SetAddressArbiter_def tree_insert_def SetState_def
      SetWaitReasonForDebugging_def thread_less_def Let_def fun_eq_iff)

lemma arbiter_inv_three_waiters: "arbiter_inv three_waiters"
  by (auto simp: arbiter_inv_def three_waiters_def boot_def idle_thread_def parked_thread_def
      IsWaitingForAddressArbiter_def tree_ordered_def thread_less_def)

lemma valid_priorities_three_waiters: "valid_priorities three_waiters"
  by (simp add: valid_priorities_def three_waiters_def boot_def parked_thread_def
      GetPriority_def word_sle_eq)

lemma waiters_three_waiters: "waiters three_waiters 0x2000 = [1, 3, 2]"
  by (simp add: waiters_def three_waiters_def boot_def parked_thread_def
      GetAddressArbiterKey_def)

lemma fields_three_waiters:
  "thread_tree three_waiters = [1, 3, 2]" "wakeups three_waiters = []"
  by (simp_all add: three_waiters_def boot_def)

theorem Signal_exact_witness:
  "arbiter_inv three_waiters \<and> valid_priorities three_waiters \<and>
   fst (Signal three_waiters 0x2000 2) = RESULT_SUCCESS \<and>
   wakeups (snd (Signal three_waiters 0x2000 2)) = [1, 3] \<and>
   thread_tree (snd (Signal three_waiters 0x2000 2)) = [2] \<and>
   wakeups (snd (Signal three_waiters 0x2000 (- 1))) = [1, 3, 2] \<and>
   thread_tree (snd (Signal three_waiters 0x2000 (- 1))) = []"
  using Signal_exact [OF arbiter_inv_three_waiters valid_priorities_three_waiters, of "0x2000" 2]
        Signal_exact [OF arbiter_inv_three_waiters valid_priorities_three_waiters, of "0x2000" "- 1"]
  by (simp add: arbiter_inv_three_waiters valid_priorities_three_waiters waiters_three_waiters
      fields_three_waiters word_sless_alt)


subsection \<open>The value that the memory operations report\<close>

lemma DecrementIfLessThan_raced:
  "DecrementIfLessThan (st\<lparr>memory := (memory st)(a := 3), interference := [Some 7]\<rparr>) a 5
   = (True, 3, st\<lparr>memory := (memory st)(a := 7), exclusive := None, interference := []\<rparr>)"
  by (simp add: DecrementIfLessThan.simps Let_def ExclusiveRead32_def ExclusiveWrite32_def
      other_cores_def ClearExclusive_def)

lemma UpdateIfEqual_raced:
  "UpdateIfEqual (st\<lparr>memory := (memory st)(a := 4), interference := [Some 9]\<rparr>) a 4 5
   = (True, 4, st\<lparr>memory := (memory st)(a := 9), exclusive := None, interference := []\<rparr>)"
  by (simp add: UpdateIfEqual.simps Let_def ExclusiveRead32_def ExclusiveWrite32_def
      other_cores_def ClearExclusive_def)

text \<open>
  Claim C2. The claim says that after a failed exclusive store the value reported is the
  one of the restarted read. The functions report the value of their first read instead:
  the recursive call's write to \<^verbatim>\<open>*out\<close> is overwritten when control returns to the
  caller. With the cell at 3, the bound 5 and another core that writes 7 before the
  store, \<^verbatim>\<open>DecrementIfLessThan\<close> reports 3, although the restarted read saw 7 and nothing
  was stored; with the cell at 4 and another core that writes 9, \<^verbatim>\<open>UpdateIfEqual\<close> for
  the expected value 4 reports 4, although the restarted read saw 9 and nothing was stored.
\<close>

theorem value_before_is_first_read:
  "fst (snd (DecrementIfLessThan st a v)) = memory st a \<and>
   fst (snd (UpdateIfEqual st a v n)) = memory st a \<and>
   fst (snd (DecrementIfLessThan (boot\<lparr>memory := (\<lambda>a. 3), interference := [Some 7]\<rparr>) 0x4000 5)) = 3 \<and>
   memory (snd (snd (DecrementIfLessThan (boot\<lparr>memory := (\<lambda>a. 3), interference := [Some 7]\<rparr>) 0x4000 5)))
     0x4000 = 7 \<and>
   fst (snd (UpdateIfEqual (boot\<lparr>memory := (\<lambda>a. 4), interference := [Some 9]\<rparr>) 0x3000 4 5)) = 4 \<and>
   memory (snd (snd (UpdateIfEqual (boot\<lparr>memory := (\<lambda>a. 4), interference := [Some 9]\<rparr>) 0x3000 4 5)))
     0x3000 = 9"
  using DecrementIfLessThan_raced [of "boot\<lparr>memory := (\<lambda>a. 3)\<rparr>" "0x4000"]
        UpdateIfEqual_raced [of "boot\<lparr>memory := (\<lambda>a. 4)\<rparr>" "0x3000"]
  by (simp add: DecrementIfLessThan_out UpdateIfEqual_out fun_upd_idem)

subsection \<open>Wrapping arithmetic on the cell\<close>

lemma wake_one_frame:
  "memory (wake_one st it) = memory st \<and> exclusive (wake_one st it) = exclusive st \<and>
   interference (wake_one st it) = interference st \<and>
   sleep_timer (wake_one st it) = sleep_timer st"
  by (simp add: wake_one_def Let_def SetSyncedObject_def Wakeup_def SetState_def
      tree_erase_def ClearAddressArbiter_def update_thread_def)

lemma signal_loop_frame:
  "memory (signal_loop st addr count n it) = memory st \<and>
   exclusive (signal_loop st addr count n it) = exclusive st \<and>
   interference (signal_loop st addr count n it) = interference st \<and>
   sleep_timer (signal_loop st addr count n it) = sleep_timer st"
proof (induction st addr count n it rule: signal_loop.induct)
  case (1 st addr count n it)
  show ?case
    apply (subst (1 2 3 4) signal_loop.simps)
    using 1 by (simp add: wake_one_frame)
qed

text \<open>
  Claim C10. The arithmetic on the cell wraps at 32 bits. When no other core interferes
  and the cell is less than the bound, \<^verbatim>\<open>DecrementIfLessThan\<close> stores the old value minus
  one modulo \<open>2^32\<close>: a cell that holds \<open>- 2^31\<close> holds \<open>2^31 - 1\<close> afterwards, for any bound
  greater than \<open>- 2^31\<close>. The value \<^verbatim>\<open>value + 1\<close> that \<^verbatim>\<open>SignalAndIncrementIfEqual\<close> stores
  for the expected value \<open>2^31 - 1\<close> is \<open>- 2^31\<close>.
\<close>

theorem cell_arithmetic_wraps:
  "(quiet st \<and> memory st a <s bound \<longrightarrow>
      uint (memory (snd (snd (DecrementIfLessThan st a bound))) a)
        = (uint (memory st a) - 1) mod 2 ^ 32) \<and>
   (quiet st \<and> sint (memory st a) = - (2 ^ 31) \<and> - (2 ^ 31) < sint bound \<longrightarrow>
      sint (memory (snd (snd (DecrementIfLessThan st a bound))) a) = 2 ^ 31 - 1) \<and>
   (quiet st \<and> sint v = 2 ^ 31 - 1 \<and> memory st a = v \<longrightarrow>
      fst (SignalAndIncrementIfEqual st a v count) = RESULT_SUCCESS \<and>
      sint (memory (snd (SignalAndIncrementIfEqual st a v count)) a) = - (2 ^ 31))"
proof (intro conjI impI)
  assume "quiet st \<and> memory st a <s bound"
  then show "uint (memory (snd (snd (DecrementIfLessThan st a bound))) a)
        = (uint (memory st a) - 1) mod 2 ^ 32"
    by (simp add: DecrementIfLessThan_quiet uint_word_ariths)
next
  assume h: "quiet st \<and> sint (memory st a) = - (2 ^ 31) \<and> - (2 ^ 31) < sint bound"
  then have "memory st a <s bound" by (simp add: word_sless_alt)
  with h show "sint (memory (snd (snd (DecrementIfLessThan st a bound))) a) = 2 ^ 31 - 1"
    by (simp add: DecrementIfLessThan_quiet sint_word_ariths)
next
  assume h: "quiet st \<and> sint v = 2 ^ 31 - 1 \<and> memory st a = v"
  then show "fst (SignalAndIncrementIfEqual st a v count) = RESULT_SUCCESS"
    by (simp add: SignalAndIncrementIfEqual_def UpdateIfEqual_quiet Let_def)
next
  assume h: "quiet st \<and> sint v = 2 ^ 31 - 1 \<and> memory st a = v"
  then show "sint (memory (snd (SignalAndIncrementIfEqual st a v count)) a) = - (2 ^ 31)"
    by (simp add: SignalAndIncrementIfEqual_def UpdateIfEqual_quiet Let_def signal_loop_frame
        sint_word_ariths)
qed


theorem cell_arithmetic_wraps_witness:
  "quiet (boot\<lparr>memory := (\<lambda>a. - (2 ^ 31))\<rparr>) \<and>
   memory (boot\<lparr>memory := (\<lambda>a. - (2 ^ 31))\<rparr>) 0x4000 <s 0 \<and>
   sint (memory (boot\<lparr>memory := (\<lambda>a. - (2 ^ 31))\<rparr>) 0x4000) = - (2 ^ 31) \<and>
   - (2 ^ 31) < sint (0 :: s32) \<and>
   uint (memory (snd (snd (DecrementIfLessThan (boot\<lparr>memory := (\<lambda>a. - (2 ^ 31))\<rparr>) 0x4000 0)))
     0x4000) = 2 ^ 31 - 1 \<and>
   sint (memory (snd (snd (DecrementIfLessThan (boot\<lparr>memory := (\<lambda>a. - (2 ^ 31))\<rparr>) 0x4000 0)))
     0x4000) = 2 ^ 31 - 1 \<and>
   quiet (boot\<lparr>memory := (\<lambda>a. 2 ^ 31 - 1)\<rparr>) \<and>
   sint (2 ^ 31 - 1 :: s32) = 2 ^ 31 - 1 \<and>
   fst (SignalAndIncrementIfEqual (boot\<lparr>memory := (\<lambda>a. 2 ^ 31 - 1)\<rparr>) 0x3000 (2 ^ 31 - 1) 1)
     = RESULT_SUCCESS \<and>
   sint (memory (snd (SignalAndIncrementIfEqual (boot\<lparr>memory := (\<lambda>a. 2 ^ 31 - 1)\<rparr>) 0x3000
     (2 ^ 31 - 1) 1)) 0x3000) = - (2 ^ 31)"
  using cell_arithmetic_wraps [of "boot\<lparr>memory := (\<lambda>a. - (2 ^ 31))\<rparr>" "0x4000" 0]
        cell_arithmetic_wraps [of "boot\<lparr>memory := (\<lambda>a. 2 ^ 31 - 1)\<rparr>" "0x3000" _ "2 ^ 31 - 1" 1]
  by (simp add: quiet_def boot_def word_sless_alt)

subsection \<open>The new value of the modifying signal\<close>

lemma sint_succ_bounded: "sint (n :: 32 word) < 2 ^ 31 - 1 \<Longrightarrow> sint (n + 1) = sint n + 1"
proof -
  assume "sint n < 2 ^ 31 - 1"
  moreover have "- (2 ^ 31) \<le> sint n" using sint_ge [of n] by simp
  ultimately show ?thesis
    by (simp add: sint_word_ariths signed_take_bit_int_eq_self)
qed

lemma count_loop_less:
  assumes tree: "thread_tree st = pre @ ws @ post"
    and keys: "\<forall>t \<in> set ws. GetAddressArbiterKey st t = addr"
    and stop: "post = [] \<or> GetAddressArbiterKey st (hd post) \<noteq> addr"
  shows "e = length ws - Suc j \<Longrightarrow> j < length ws \<Longrightarrow> n \<le>s count \<Longrightarrow>
         int e + sint n < 2 ^ 31 \<Longrightarrow>
         (count_loop st addr count (length pre + j) n <s count) \<longleftrightarrow>
         (sint n + int e < sint count)"
proof (induction e arbitrary: j n)
  case 0
  then have last: "Suc j = length ws" by simp
  have "\<not> (Suc (length pre + j) < tree_end st \<and>
            GetAddressArbiterKey st (thread_tree st ! Suc (length pre + j)) = addr)"
    using stop last tree by (cases post) (auto simp: tree_end_def nth_append)
  then have "count_loop st addr count (length pre + j) n = n"
    by (subst count_loop.simps) (auto simp: Let_def)
  then show ?case by (simp add: word_sless_alt)
next
  case (Suc e)
  then have more: "Suc j < length ws" by simp
  then have "ws ! Suc j \<in> set ws" by simp
  with keys have "GetAddressArbiterKey st (ws ! Suc j) = addr" by blast
  then have next_one: "Suc (length pre + j) < tree_end st \<and>
            GetAddressArbiterKey st (thread_tree st ! Suc (length pre + j)) = addr"
    using more tree by (simp add: tree_end_def nth_append)
  from Suc.prems have small: "sint n < 2 ^ 31 - 1" by simp
  note s = sint_succ_bounded [OF small]
  show ?case
  proof (cases "count \<le>s n")
    case True
    with next_one have "count_loop st addr count (length pre + j) n = n + 1"
      by (subst count_loop.simps) (simp add: Let_def)
    moreover from True Suc.prems(3) have "sint n = sint count"
      by (simp add: word_sle_eq)
    ultimately show ?thesis by (simp add: word_sless_alt s)
  next
    case False
    with next_one have step: "count_loop st addr count (length pre + j) n =
        count_loop st addr count (length pre + Suc j) (n + 1)"
      by (subst count_loop.simps) (simp add: Let_def)
    from False have "n + 1 \<le>s count" by (simp add: word_sle_eq s)
    moreover have "e = length ws - Suc (Suc j)" using Suc.prems(1) by simp
    moreover have "int e + sint (n + 1) < 2 ^ 31" using Suc.prems(4) by (simp add: s)
    ultimately have "(count_loop st addr count (length pre + Suc j) (n + 1) <s count) \<longleftrightarrow>
         (sint (n + 1) + int e < sint count)"
      using more by (intro Suc.IH) simp_all
    then show ?thesis by (simp add: step s add.assoc)
  qed
qed


lemma has_waiter_iff:
  assumes "tree_ordered st" "valid_priorities st"
  shows "(nfind_light st (addr, - 1) < tree_end st \<and>
          GetAddressArbiterKey st (thread_tree st ! nfind_light st (addr, - 1)) = addr)
         \<longleftrightarrow> waiters st addr \<noteq> []"
proof -
  from tree_split [OF assms, of addr] obtain pre post where
    tree: "thread_tree st = pre @ waiters st addr @ post" and
    len: "length pre = nfind_light st (addr, - 1)" and
    post: "\<forall>t \<in> set post. addr < GetAddressArbiterKey st t"
    by blast
  have keys: "\<forall>t \<in> set (waiters st addr). GetAddressArbiterKey st t = addr"
    by (simp add: waiters_def)
  show ?thesis
  proof (cases "waiters st addr")
    case Nil
    with tree have "thread_tree st = pre @ post" by simp
    with post show ?thesis
      unfolding len [symmetric] Nil by (cases post) (auto simp: tree_end_def nth_append)
  next
    case (Cons w ws)
    with keys have "GetAddressArbiterKey st w = addr" by simp
    moreover from tree Cons have "thread_tree st = pre @ w # ws @ post" by simp
    ultimately show ?thesis
      unfolding len [symmetric] Cons by (simp add: tree_end_def nth_append)
  qed
qed

lemma modify_new_value_eq:
  assumes ord: "tree_ordered st" and prio: "valid_priorities st"
    and small: "length (thread_tree st) < 2 ^ 31"
  shows "modify_new_value st addr v count (nfind_light st (addr, - 1)) =
    (if count \<le>s 0 then (if waiters st addr \<noteq> [] then v - 2 else v + 1)
     else if waiters st addr = [] then v + 1
     else if int (length (waiters st addr)) \<le> sint count then v - 1
     else v)"
proof (cases "count \<le>s 0 \<or> waiters st addr = []")
  case True
  then show ?thesis
    by (auto simp: modify_new_value_def has_waiter_iff [OF ord prio])
next
  case False
  from tree_split [OF ord prio, of addr] obtain pre post where
    tree: "thread_tree st = pre @ waiters st addr @ post" and
    len: "length pre = nfind_light st (addr, - 1)" and
    post: "\<forall>t \<in> set post. addr < GetAddressArbiterKey st t"
    by blast
  have keys: "\<forall>t \<in> set (waiters st addr). GetAddressArbiterKey st t = addr"
    by (simp add: waiters_def)
  have stop: "post = [] \<or> GetAddressArbiterKey st (hd post) \<noteq> addr"
    using post by (cases post) auto
  have "length (waiters st addr) \<le> length (thread_tree st)"
    by (simp add: waiters_def)
  with small have bound: "int (length (waiters st addr) - Suc 0) + sint (0 :: s32) < 2 ^ 31"
    by simp
  from False have pos: "(0 :: s32) \<le>s count" by (simp add: word_sle_eq)
  from False have ne: "0 < length (waiters st addr)" by simp
  have "(count_loop st addr count (length pre + 0) 0 <s count) \<longleftrightarrow>
        (sint (0 :: s32) + int (length (waiters st addr) - Suc 0) < sint count)"
    by (rule count_loop_less [OF tree keys stop refl ne pos bound])
  then have "(count_loop st addr count (nfind_light st (addr, - 1)) 0 <s count) \<longleftrightarrow>
        int (length (waiters st addr)) \<le> sint count"
    using ne by (simp add: len) linarith
  with False show ?thesis
    by (simp add: modify_new_value_def has_waiter_iff [OF ord prio] Let_def)
qed


lemma memory_signal_loop [simp]: "memory (signal_loop st addr count n it) = memory st"
  by (simp add: signal_loop_frame)

text \<open>
  Claim C3. In a well-formed tree of fewer than \<open>2^31\<close> threads, with \<open>k\<close> threads waiting
  on \<open>addr\<close>, the value that \<^verbatim>\<open>SignalAndModifyByWaitingCountIfEqual(addr, value, count)\<close>
  chooses is: for \<open>count \<le> 0\<close>, \<open>value - 2\<close> if there is a waiter and \<open>value + 1\<close> if
  there is none; for \<open>count > 0\<close>, \<open>value + 1\<close> if there is no waiter, \<open>value - 1\<close> if
  \<open>k \<le> count\<close> and \<open>value\<close> itself if \<open>k > count\<close>. When the cell holds \<open>value\<close> and no
  other core interferes, the call succeeds and the cell holds the chosen value afterwards.
\<close>

theorem new_value_by_waiting_count:
  fixes st :: System and addr :: VAddr and v count :: s32
  defines "k \<equiv> length (waiters st addr)"
  defines "chosen \<equiv>
    (if count \<le>s 0 then (if 0 < k then v - 2 else v + 1)
     else if k = 0 then v + 1
     else if int k \<le> sint count then v - 1
     else v)"
  assumes ord: "tree_ordered st" and prio: "valid_priorities st"
    and small: "length (thread_tree st) < 2 ^ 31"
  shows "modify_new_value st addr v count (nfind_light st (addr, - 1)) = chosen \<and>
         (quiet st \<and> memory st addr = v \<longrightarrow>
            fst (SignalAndModifyByWaitingCountIfEqual st addr v count) = RESULT_SUCCESS \<and>
            memory (snd (SignalAndModifyByWaitingCountIfEqual st addr v count)) addr = chosen)"
proof -
  have nv: "modify_new_value st addr v count (nfind_light st (addr, - 1)) = chosen"
    by (simp add: modify_new_value_eq [OF ord prio small] chosen_def k_def)
  have "fst (SignalAndModifyByWaitingCountIfEqual st addr v count) = RESULT_SUCCESS \<and>
        memory (snd (SignalAndModifyByWaitingCountIfEqual st addr v count)) addr = chosen"
    if "quiet st \<and> memory st addr = v"
  proof (cases "v = chosen")
    case True
    with nv have nv': "modify_new_value st addr v count (nfind_light st (addr, - 1)) = v"
      by simp
    have "fst (SignalAndModifyByWaitingCountIfEqual st addr v count) = RESULT_SUCCESS \<and>
        memory (snd (SignalAndModifyByWaitingCountIfEqual st addr v count)) addr = v"
      using that
      by (simp add: SignalAndModifyByWaitingCountIfEqual_def nv' Let_def ReadFromUser_def
          Read32_def)
    with True show ?thesis by simp
  next
    case False
    with that show ?thesis
      by (simp add: SignalAndModifyByWaitingCountIfEqual_def nv Let_def UpdateIfEqual_quiet)
  qed
  with nv show ?thesis by blast
qed

lemma two_waiters_facts:
  "tree_ordered two_waiters" "valid_priorities two_waiters"
  "length (thread_tree two_waiters) < 2 ^ 31" "quiet two_waiters"
  "memory two_waiters 0x5000 = 10" "waiters two_waiters 0x5000 = [1, 2]"
  "waiters two_waiters 0x6000 = []" "thread_tree two_waiters = [1, 2]"
  "wakeups two_waiters = []"
  by (simp_all add: two_waiters_def boot_def parked_thread_def tree_ordered_def
      valid_priorities_def GetPriority_def thread_less_def quiet_def waiters_def
      GetAddressArbiterKey_def word_sle_eq)

theorem new_value_by_waiting_count_witness:
  "tree_ordered two_waiters \<and> valid_priorities two_waiters \<and>
   length (thread_tree two_waiters) < 2 ^ 31 \<and> quiet two_waiters \<and>
   memory two_waiters 0x5000 = 10 \<and>
   modify_new_value two_waiters 0x5000 10 1 (nfind_light two_waiters (0x5000, - 1)) = 10 \<and>
   modify_new_value two_waiters 0x5000 10 2 (nfind_light two_waiters (0x5000, - 1)) = 9 \<and>
   modify_new_value two_waiters 0x5000 10 (- 1) (nfind_light two_waiters (0x5000, - 1)) = 8 \<and>
   modify_new_value two_waiters 0x6000 10 1 (nfind_light two_waiters (0x6000, - 1)) = 11 \<and>
   fst (SignalAndModifyByWaitingCountIfEqual two_waiters 0x5000 10 2) = RESULT_SUCCESS \<and>
   memory (snd (SignalAndModifyByWaitingCountIfEqual two_waiters 0x5000 10 2)) 0x5000 = 9"
  using new_value_by_waiting_count [OF two_waiters_facts(1,2,3), of "0x5000" 10 1]
        new_value_by_waiting_count [OF two_waiters_facts(1,2,3), of "0x5000" 10 2]
        new_value_by_waiting_count [OF two_waiters_facts(1,2,3), of "0x5000" 10 "- 1"]
        new_value_by_waiting_count [OF two_waiters_facts(1,2,3), of "0x6000" 10 1]
  by (simp add: two_waiters_facts word_sle_eq)

subsection \<open>The modifying signal when the value stays\<close>

lemma new_value_stays_iff:
  assumes ord: "tree_ordered st" and prio: "valid_priorities st"
    and small: "length (thread_tree st) < 2 ^ 31"
  shows "modify_new_value st addr v count (nfind_light st (addr, - 1)) = v \<longleftrightarrow>
         0 <s count \<and> sint count < int (length (waiters st addr))"
proof -
  have "v - 2 \<noteq> v" "v + 1 \<noteq> v" "v - 1 \<noteq> v" by simp_all
  then show ?thesis
    unfolding modify_new_value_eq [OF ord prio small]
    by (auto simp: word_sle_eq word_sless_alt)
qed

lemma waiters_filter_tree:
  "GetAddressArbiterKey st' = GetAddressArbiterKey st \<Longrightarrow>
   thread_tree st' = filter P (thread_tree st) \<Longrightarrow>
   waiters st' a = filter P (waiters st a)"
  by (simp add: waiters_def conj_commute)

text \<open>
  Claim C7. When the value computed by \<^verbatim>\<open>SignalAndModifyByWaitingCountIfEqual\<close> equals the
  expected value, which happens exactly when \<open>count\<close> is positive and more than \<open>count\<close>
  threads wait on the address, the call reads the cell with a plain read and stores
  nothing: memory, the monitor and the other cores' schedule are as before. If the cell
  holds the expected value, the call succeeds and wakes the first \<open>count\<close> waiters; the
  others stay enrolled. If it holds another value, the result is
  \<^verbatim>\<open>ResultInvalidState\<close> and the state is unchanged.
\<close>

theorem modify_without_store:
  fixes st :: System and addr :: VAddr and v count :: s32
  defines "st' \<equiv> snd (SignalAndModifyByWaitingCountIfEqual st addr v count)"
  assumes inv: "arbiter_inv st" and prio: "valid_priorities st"
    and small: "length (thread_tree st) < 2 ^ 31"
    and stays: "modify_new_value st addr v count (nfind_light st (addr, - 1)) = v"
  shows "0 <s count \<and> sint count < int (length (waiters st addr)) \<and>
         memory st' = memory st \<and> exclusive st' = exclusive st \<and>
         interference st' = interference st \<and>
         (memory st addr = v \<longrightarrow>
            fst (SignalAndModifyByWaitingCountIfEqual st addr v count) = RESULT_SUCCESS \<and>
            wakeups st' = wakeups st @ take (nat (sint count)) (waiters st addr) \<and>
            waiters st' addr = drop (nat (sint count)) (waiters st addr)) \<and>
         (memory st addr \<noteq> v \<longrightarrow>
            SignalAndModifyByWaitingCountIfEqual st addr v count = (ResultInvalidState, st))"
proof -
  from inv have ord: "tree_ordered st" and d: "distinct (thread_tree st)"
    by (simp_all add: arbiter_inv_def)
  let ?W = "waiters st addr"
  from stays have more: "0 <s count \<and> sint count < int (length ?W)"
    by (simp add: new_value_stays_iff [OF ord prio small])
  then have m: "batch count 0 (length ?W) = nat (sint count)"
    by (auto simp: batch_0)
  have call: "SignalAndModifyByWaitingCountIfEqual st addr v count =
      (if memory st addr \<noteq> v then (ResultInvalidState, st)
       else (RESULT_SUCCESS, signal_loop st addr count 0 (nfind_light st (addr, - 1))))"
    by (simp add: SignalAndModifyByWaitingCountIfEqual_def stays Let_def ReadFromUser_def
        Read32_def)
  have frame: "memory st' = memory st \<and> exclusive st' = exclusive st \<and>
         interference st' = interference st"
    by (simp add: st'_def call signal_loop_frame)
  have fail: "memory st addr \<noteq> v \<longrightarrow>
      SignalAndModifyByWaitingCountIfEqual st addr v count = (ResultInvalidState, st)"
    by (simp add: call)
  have ok: "fst (SignalAndModifyByWaitingCountIfEqual st addr v count) = RESULT_SUCCESS \<and>
            wakeups st' = wakeups st @ take (nat (sint count)) ?W \<and>
            waiters st' addr = drop (nat (sint count)) ?W"
    if cell: "memory st addr = v"
  proof -
    have st': "st' = st\<lparr>threads := (\<lambda>t. if t \<in> set (take (nat (sint count)) ?W)
                         then woken (threads st t) else threads st t),
        thread_tree := filter (\<lambda>t. t \<notin> set (take (nat (sint count)) ?W)) (thread_tree st),
        wakeups := wakeups st @ take (nat (sint count)) ?W\<rparr>"
      using signal_loop_batch [OF ord prio d, of addr count]
      by (simp add: st'_def call cell m)
    have keys: "GetAddressArbiterKey st' = GetAddressArbiterKey st"
      by (auto simp: st' GetAddressArbiterKey_def fun_eq_iff)
    have dW: "distinct ?W" using d by (simp add: waiters_def)
    have "waiters st' addr = filter (\<lambda>t. t \<notin> set (take (nat (sint count)) ?W)) ?W"
      by (rule waiters_filter_tree [OF keys]) (simp add: st')
    then have "waiters st' addr = drop (nat (sint count)) ?W"
      by (simp add: filter_not_in_take [OF dW])
    then show ?thesis by (simp add: call cell) (simp add: st')
  qed
  from more frame fail ok show ?thesis by blast
qed

lemma arbiter_inv_two_waiters: "arbiter_inv two_waiters"
  by (auto simp: arbiter_inv_def two_waiters_def boot_def idle_thread_def parked_thread_def
      IsWaitingForAddressArbiter_def tree_ordered_def thread_less_def)

lemma new_value_two_waiters:
  "modify_new_value two_waiters 0x5000 10 1 (nfind_light two_waiters (0x5000, - 1)) = 10"
  by (simp add: new_value_stays_iff [OF two_waiters_facts(1,2,3)] two_waiters_facts
      word_sless_alt)

theorem modify_without_store_witness:
  "arbiter_inv two_waiters \<and> valid_priorities two_waiters \<and>
   length (thread_tree two_waiters) < 2 ^ 31 \<and>
   modify_new_value two_waiters 0x5000 10 1 (nfind_light two_waiters (0x5000, - 1)) = 10 \<and>
   memory two_waiters 0x5000 = 10 \<and>
   fst (SignalAndModifyByWaitingCountIfEqual two_waiters 0x5000 10 1) = RESULT_SUCCESS \<and>
   memory (snd (SignalAndModifyByWaitingCountIfEqual two_waiters 0x5000 10 1)) 0x5000 = 10 \<and>
   wakeups (snd (SignalAndModifyByWaitingCountIfEqual two_waiters 0x5000 10 1)) = [1] \<and>
   waiters (snd (SignalAndModifyByWaitingCountIfEqual two_waiters 0x5000 10 1)) 0x5000 = [2]"
  using modify_without_store [OF arbiter_inv_two_waiters two_waiters_facts(2,3)
          new_value_two_waiters]
  by (simp add: arbiter_inv_two_waiters two_waiters_facts new_value_two_waiters)

subsection \<open>The incrementing signal\<close>

text \<open>
  Claim C4. When the cell does not hold the expected value,
  \<^verbatim>\<open>SignalAndIncrementIfEqual\<close> returns \<^verbatim>\<open>ResultInvalidState\<close>, calls \<^verbatim>\<open>Wakeup\<close> on no
  thread, leaves the tree and the thread objects alone and leaves memory unchanged; only
  the monitor's reservation is dropped. When it returns success and no other core wrote
  the cell in between, the cell holds the expected value plus one.
\<close>

theorem SignalAndIncrementIfEqual_checked:
  fixes st :: System and addr :: VAddr and v count :: s32
  defines "st' \<equiv> snd (SignalAndIncrementIfEqual st addr v count)"
  shows "(memory st addr \<noteq> v \<longrightarrow>
            fst (SignalAndIncrementIfEqual st addr v count) = ResultInvalidState \<and>
            wakeups st' = wakeups st \<and> thread_tree st' = thread_tree st \<and>
            threads st' = threads st \<and> memory st' = memory st \<and>
            st' = st\<lparr>exclusive := None\<rparr>) \<and>
         (fst (SignalAndIncrementIfEqual st addr v count) = RESULT_SUCCESS \<and> quiet st \<longrightarrow>
            memory st' addr = v + 1)"
proof -
  have differs: "fst (SignalAndIncrementIfEqual st addr v count) = ResultInvalidState \<and>
            wakeups st' = wakeups st \<and> thread_tree st' = thread_tree st \<and>
            threads st' = threads st \<and> memory st' = memory st \<and>
            st' = st\<lparr>exclusive := None\<rparr>"
    if "memory st addr \<noteq> v"
  proof -
    from that have "SignalAndIncrementIfEqual st addr v count =
        (ResultInvalidState, st\<lparr>exclusive := None\<rparr>)"
      by (simp add: SignalAndIncrementIfEqual_def UpdateIfEqual_not_equal Let_def)
    then show ?thesis by (simp add: st'_def)
  qed
  have written: "memory st' addr = v + 1"
    if h: "fst (SignalAndIncrementIfEqual st addr v count) = RESULT_SUCCESS \<and> quiet st"
  proof -
    from h have "memory st addr = v"
      by (auto simp: SignalAndIncrementIfEqual_def UpdateIfEqual_out Let_def split: if_splits)
    with h show ?thesis
      by (simp add: st'_def SignalAndIncrementIfEqual_def UpdateIfEqual_quiet Let_def)
  qed
  from differs written show ?thesis by blast
qed

theorem SignalAndIncrementIfEqual_checked_witness:
  "memory (boot\<lparr>memory := (\<lambda>a. 5)\<rparr>) 0x3000 \<noteq> 4 \<and>
   fst (SignalAndIncrementIfEqual (boot\<lparr>memory := (\<lambda>a. 5)\<rparr>) 0x3000 4 1) = ResultInvalidState \<and>
   memory (snd (SignalAndIncrementIfEqual (boot\<lparr>memory := (\<lambda>a. 5)\<rparr>) 0x3000 4 1)) 0x3000 = 5 \<and>
   wakeups (snd (SignalAndIncrementIfEqual (boot\<lparr>memory := (\<lambda>a. 5)\<rparr>) 0x3000 4 1)) = [] \<and>
   quiet (boot\<lparr>memory := (\<lambda>a. 4)\<rparr>) \<and>
   fst (SignalAndIncrementIfEqual (boot\<lparr>memory := (\<lambda>a. 4)\<rparr>) 0x3000 4 1) = RESULT_SUCCESS \<and>
   memory (snd (SignalAndIncrementIfEqual (boot\<lparr>memory := (\<lambda>a. 4)\<rparr>) 0x3000 4 1)) 0x3000 = 5"
proof -
  have q: "quiet (boot\<lparr>memory := (\<lambda>a. 4)\<rparr>)" by (simp add: quiet_def boot_def)
  have ok: "fst (SignalAndIncrementIfEqual (boot\<lparr>memory := (\<lambda>a. 4)\<rparr>) 0x3000 4 1) = RESULT_SUCCESS"
    by (simp add: SignalAndIncrementIfEqual_def UpdateIfEqual_quiet [OF q] Let_def)
  show ?thesis
    using SignalAndIncrementIfEqual_checked [of "boot\<lparr>memory := (\<lambda>a. 5)\<rparr>" "0x3000" 4 1]
          SignalAndIncrementIfEqual_checked [of "boot\<lparr>memory := (\<lambda>a. 4)\<rparr>" "0x3000" 4 1]
    by (simp add: q ok) (simp add: boot_def)
qed

subsection \<open>The early returns of the waits\<close>

lemma kernel_part_fields:
  "kernel_part a = kernel_part b \<Longrightarrow>
   threads a = threads b \<and> thread_tree a = thread_tree b \<and> wakeups a = wakeups b \<and>
   sleep_timer a = sleep_timer b"
  by (simp add: kernel_part_def)

lemma WaitIfLessThan_begin_early:
  assumes "fst (WaitIfLessThan_begin st cur addr v decrement timeout) = Some r"
  shows "(r = ResultTerminationRequested \<and>
            snd (WaitIfLessThan_begin st cur addr v decrement timeout) = st) \<or>
         kernel_part (snd (WaitIfLessThan_begin st cur addr v decrement timeout)) =
            kernel_part (SetSyncedObject st cur ResultTimedOut)"
  using assms
  by (auto simp: WaitIfLessThan_begin_def Let_def ReadFromUser_def
      kernel_part_DecrementIfLessThan split: if_splits)

lemma WaitIfEqual_begin_early:
  assumes "fst (WaitIfEqual_begin st cur addr v timeout) = Some r"
  shows "(r = ResultTerminationRequested \<and>
            snd (WaitIfEqual_begin st cur addr v timeout) = st) \<or>
         kernel_part (snd (WaitIfEqual_begin st cur addr v timeout)) =
            kernel_part (SetSyncedObject st cur ResultTimedOut)"
  using assms
  by (auto simp: WaitIfEqual_begin_def Let_def ReadFromUser_def split: if_splits)

lemma not_enrolled_refl: "not_enrolled st st"
  by (simp add: not_enrolled_def)

lemma not_enrolled_SetSyncedObject:
  "kernel_part st' = kernel_part (SetSyncedObject st cur r) \<Longrightarrow> not_enrolled st st'"
  by (drule kernel_part_fields)
     (auto simp: not_enrolled_def SetSyncedObject_def update_thread_def
       IsWaitingForAddressArbiter_def GetAddressArbiterKey_def fun_eq_iff)



text \<open>
  Claim C5. Both waits test, in this order: whether the thread is being terminated,
  whether the read of the cell succeeded, whether the value fits, whether the timeout is
  zero. The read always succeeds and reports the content of the cell, so the outcome is
  decided by the termination flag, the cell and the timeout, in this order; \<open>None\<close>
  stands for the thread being parked. A thread that is being terminated leaves the whole
  state as it is: memory is not accessed. On every early return the tree, the tree
  pointers and keys of all threads, the timers and the record of wakeups are unchanged:
  the caller is not enrolled.
\<close>

theorem wait_early_returns:
  fixes st :: System and cur :: thread_ptr and addr :: VAddr and v :: s32
    and decrement :: bool and timeout :: s64
  defines "st1 \<equiv> SetSyncedObject st cur ResultTimedOut"
  defines "rd \<equiv> (if decrement then DecrementIfLessThan st1 addr v else ReadFromUser st1 addr)"
  defines "rd' \<equiv> ReadFromUser st1 addr"
  defines "wl \<equiv> WaitIfLessThan_begin st cur addr v decrement timeout"
  defines "we \<equiv> WaitIfEqual_begin st cur addr v timeout"
  shows "fst wl =
           (if IsTerminationRequested st cur then Some ResultTerminationRequested
            else if \<not> fst rd then Some ResultInvalidCurrentMemory
            else if v \<le>s fst (snd rd) then Some ResultInvalidState
            else if timeout = 0 then Some ResultTimedOut
            else None) \<and>
         fst we =
           (if IsTerminationRequested st cur then Some ResultTerminationRequested
            else if \<not> fst rd' then Some ResultInvalidCurrentMemory
            else if v \<noteq> fst (snd rd') then Some ResultInvalidState
            else if timeout = 0 then Some ResultTimedOut
            else None) \<and>
         fst rd \<and> fst (snd rd) = memory st addr \<and>
         fst rd' \<and> fst (snd rd') = memory st addr \<and>
         (IsTerminationRequested st cur \<longrightarrow> snd wl = st \<and> snd we = st) \<and>
         (fst wl \<noteq> None \<longrightarrow> not_enrolled st (snd wl)) \<and>
         (fst we \<noteq> None \<longrightarrow> not_enrolled st (snd we))"
proof -
  have mem: "memory st1 = memory st"
    by (simp add: st1_def SetSyncedObject_def update_thread_def)
  have c1: "fst wl =
           (if IsTerminationRequested st cur then Some ResultTerminationRequested
            else if \<not> fst rd then Some ResultInvalidCurrentMemory
            else if v \<le>s fst (snd rd) then Some ResultInvalidState
            else if timeout = 0 then Some ResultTimedOut
            else None)"
    by (simp add: wl_def WaitIfLessThan_begin_def Let_def rd_def st1_def)
  have c2: "fst we =
           (if IsTerminationRequested st cur then Some ResultTerminationRequested
            else if \<not> fst rd' then Some ResultInvalidCurrentMemory
            else if v \<noteq> fst (snd rd') then Some ResultInvalidState
            else if timeout = 0 then Some ResultTimedOut
            else None)"
    by (simp add: we_def WaitIfEqual_begin_def Let_def rd'_def st1_def)
  have c3: "fst rd \<and> fst (snd rd) = memory st addr"
    by (simp add: rd_def DecrementIfLessThan_ok DecrementIfLessThan_out ReadFromUser_def
        Read32_def mem)
  have c4: "fst rd' \<and> fst (snd rd') = memory st addr"
    by (simp add: rd'_def ReadFromUser_def Read32_def mem)
  have c5: "IsTerminationRequested st cur \<longrightarrow> snd wl = st \<and> snd we = st"
    by (simp add: wl_def we_def WaitIfLessThan_begin_def WaitIfEqual_begin_def)
  have c6: "fst wl \<noteq> None \<longrightarrow> not_enrolled st (snd wl)"
    using WaitIfLessThan_begin_early [of st cur addr v decrement timeout]
    by (auto simp: wl_def not_enrolled_refl dest: not_enrolled_SetSyncedObject)
  have c7: "fst we \<noteq> None \<longrightarrow> not_enrolled st (snd we)"
    using WaitIfEqual_begin_early [of st cur addr v timeout]
    by (auto simp: we_def not_enrolled_refl dest: not_enrolled_SetSyncedObject)
  from c1 c2 c3 c4 c5 c6 c7 show ?thesis by blast
qed


theorem wait_early_returns_witness:
  "IsTerminationRequested (boot\<lparr>threads := (\<lambda>t. idle_thread\<lparr>termination_requested := True\<rparr>)\<rparr>) 1 \<and>
   WaitIfLessThan_begin (boot\<lparr>threads := (\<lambda>t. idle_thread\<lparr>termination_requested := True\<rparr>)\<rparr>)
     1 0x4000 0 True 0 =
     (Some ResultTerminationRequested,
      boot\<lparr>threads := (\<lambda>t. idle_thread\<lparr>termination_requested := True\<rparr>)\<rparr>) \<and>
   WaitIfEqual_begin (boot\<lparr>threads := (\<lambda>t. idle_thread\<lparr>termination_requested := True\<rparr>)\<rparr>)
     1 0x4000 7 0 =
     (Some ResultTerminationRequested,
      boot\<lparr>threads := (\<lambda>t. idle_thread\<lparr>termination_requested := True\<rparr>)\<rparr>) \<and>
   fst (WaitIfLessThan_begin boot 1 0x4000 0 False 0) = Some ResultInvalidState \<and>
   not_enrolled boot (snd (WaitIfLessThan_begin boot 1 0x4000 0 False 0)) \<and>
   fst (WaitIfEqual_begin boot 1 0x4000 7 0) = Some ResultInvalidState \<and>
   not_enrolled boot (snd (WaitIfEqual_begin boot 1 0x4000 7 0)) \<and>
   fst (WaitIfLessThan_begin boot 1 0x4000 5 False 0) = Some ResultTimedOut \<and>
   not_enrolled boot (snd (WaitIfLessThan_begin boot 1 0x4000 5 False 0)) \<and>
   fst (WaitIfEqual_begin boot 1 0x4000 0 0) = Some ResultTimedOut \<and>
   not_enrolled boot (snd (WaitIfEqual_begin boot 1 0x4000 0 0)) \<and>
   fst (WaitIfEqual_begin boot 1 0x4000 0 (- 1)) = None"
proof -
  let ?dying = "boot\<lparr>threads := (\<lambda>t. idle_thread\<lparr>termination_requested := True\<rparr>)\<rparr>"
  have t: "IsTerminationRequested ?dying 1" "\<not> IsTerminationRequested boot 1"
    by (simp_all add: IsTerminationRequested_def boot_def idle_thread_def)
  have m: "memory boot 0x4000 = 0" by (simp add: boot_def)
  note A = wait_early_returns [where st = ?dying and cur = 1 and addr = "0x4000" and v = 0
      and decrement = True and timeout = 0]
  note B = wait_early_returns [where st = ?dying and cur = 1 and addr = "0x4000" and v = 7
      and decrement = True and timeout = 0]
  note C = wait_early_returns [where st = boot and cur = 1 and addr = "0x4000" and v = 0
      and decrement = False and timeout = 0]
  note D = wait_early_returns [where st = boot and cur = 1 and addr = "0x4000" and v = 7
      and decrement = False and timeout = 0]
  note E = wait_early_returns [where st = boot and cur = 1 and addr = "0x4000" and v = 5
      and decrement = False and timeout = 0]
  note F = wait_early_returns [where st = boot and cur = 1 and addr = "0x4000" and v = 0
      and decrement = False and timeout = "- 1"]
  have a: "WaitIfLessThan_begin ?dying 1 0x4000 0 True 0 = (Some ResultTerminationRequested, ?dying)"
    using A t by (simp add: prod_eq_iff)
  have b: "WaitIfEqual_begin ?dying 1 0x4000 7 0 = (Some ResultTerminationRequested, ?dying)"
    using B t by (simp add: prod_eq_iff)
  have c: "fst (WaitIfLessThan_begin boot 1 0x4000 0 False 0) = Some ResultInvalidState \<and>
           not_enrolled boot (snd (WaitIfLessThan_begin boot 1 0x4000 0 False 0)) \<and>
           fst (WaitIfEqual_begin boot 1 0x4000 0 0) = Some ResultTimedOut \<and>
           not_enrolled boot (snd (WaitIfEqual_begin boot 1 0x4000 0 0))"
    using C t m by (simp add: word_sle_eq)
  have d: "fst (WaitIfEqual_begin boot 1 0x4000 7 0) = Some ResultInvalidState \<and>
           not_enrolled boot (snd (WaitIfEqual_begin boot 1 0x4000 7 0))"
    using D t m by simp
  have e: "fst (WaitIfLessThan_begin boot 1 0x4000 5 False 0) = Some ResultTimedOut \<and>
           not_enrolled boot (snd (WaitIfLessThan_begin boot 1 0x4000 5 False 0))"
    using E t m by (simp add: word_sle_eq)
  have f: "fst (WaitIfEqual_begin boot 1 0x4000 0 (- 1)) = None"
    using F t m by simp
  from t(1) a b c d e f show ?thesis by blast
qed

subsection \<open>Decrement on a polling wait\<close>




text \<open>
  The same call when another core writes 7 to the cell between the exclusive load and the
  exclusive store: the value tested is the 3 of the first read (see the theorem on the
  value that the memory operations report), the result is \<^verbatim>\<open>ResultTimedOut\<close> and the
  cell holds 7.
\<close>

lemma decrement_on_poll_raced:
  "fst (WaitIfLessThan_begin (boot\<lparr>memory := (\<lambda>a. 3), interference := [Some 7]\<rparr>)
          1 0x4000 5 True 0) = Some ResultTimedOut \<and>
   memory (snd (WaitIfLessThan_begin (boot\<lparr>memory := (\<lambda>a. 3), interference := [Some 7]\<rparr>)
          1 0x4000 5 True 0)) 0x4000 = 7"
proof -
  let ?st1 = "SetSyncedObject (boot\<lparr>memory := (\<lambda>a. 3), interference := [Some 7]\<rparr>) 1
                ResultTimedOut"
  have st1: "?st1 = (?st1\<lparr>memory := (\<lambda>a. 3)\<rparr>)
                \<lparr>memory := (memory (?st1\<lparr>memory := (\<lambda>a. 3)\<rparr>))(0x4000 := 3),
                 interference := [Some 7]\<rparr>"
    by (simp add: SetSyncedObject_def update_thread_def fun_upd_idem)
  have "DecrementIfLessThan ?st1 0x4000 5 =
      (True, 3, (?st1\<lparr>memory := (\<lambda>a. 3)\<rparr>)
                  \<lparr>memory := (memory (?st1\<lparr>memory := (\<lambda>a. 3)\<rparr>))(0x4000 := 7),
                   exclusive := None, interference := []\<rparr>)"
    by (subst st1) (rule DecrementIfLessThan_raced)
  then show ?thesis
    by (simp add: WaitIfLessThan_begin_def Let_def IsTerminationRequested_def boot_def
        idle_thread_def)
qed

subsection \<open>The invariant of the tree\<close>

lemma thread_less_asym: "thread_less a b \<Longrightarrow> \<not> thread_less b a"
  by (auto simp: thread_less_def word_sless_alt)

lemma thread_less_trans: "thread_less a b \<Longrightarrow> thread_less b c \<Longrightarrow> thread_less a c"
  by (auto simp: thread_less_def word_sless_alt)

lemma sorted_wrt_insert_behind:
  fixes lt :: "'a \<Rightarrow> 'a \<Rightarrow> bool"
  assumes asym: "\<And>a b. lt a b \<Longrightarrow> \<not> lt b a"
    and trans: "\<And>a b c. lt a b \<Longrightarrow> lt b c \<Longrightarrow> lt a c"
  shows "sorted_wrt (\<lambda>a b. \<not> lt b a) xs \<Longrightarrow>
    sorted_wrt (\<lambda>a b. \<not> lt b a)
      (takeWhile (\<lambda>u. \<not> lt t u) xs @ t # dropWhile (\<lambda>u. \<not> lt t u) xs)"
proof (induction xs)
  case Nil
  show ?case by simp
next
  case (Cons x xs)
  show ?case
  proof (cases "lt t x")
    case True
    have "\<not> lt y t" if "y \<in> set (x # xs)" for y
    proof
      assume "lt y t"
      then have "lt y x" using True by (rule trans)
      with that Cons.prems True asym show False by auto
    qed
    with True Cons.prems show ?thesis by auto
  next
    case False
    have "set (takeWhile (\<lambda>u. \<not> lt t u) xs) \<subseteq> set xs"
         "set (dropWhile (\<lambda>u. \<not> lt t u) xs) \<subseteq> set xs"
      by (auto dest: set_takeWhileD set_dropWhileD)
    with False Cons show ?thesis by auto
  qed
qed

text \<open>What the invariant reads of a state.\<close>

lemma arbiter_inv_cong:
  assumes "thread_tree st' = thread_tree st"
    and "\<And>t. address_arbiter_tree (threads st' t) = address_arbiter_tree (threads st t)"
    and "\<And>t. address_arbiter_key (threads st' t) = address_arbiter_key (threads st t)"
    and "\<And>t. priority (threads st' t) = priority (threads st t)"
  shows "arbiter_inv st' = arbiter_inv st"
  using assms
  by (simp add: arbiter_inv_def tree_ordered_def thread_less_def IsWaitingForAddressArbiter_def)

lemma arbiter_inv_kernel_part:
  "kernel_part st' = kernel_part st \<Longrightarrow> arbiter_inv st' = arbiter_inv st"
  by (rule arbiter_inv_cong) (simp_all add: kernel_part_def)

lemma arbiter_inv_erase:
  assumes inv: "arbiter_inv st" and it: "it < length (thread_tree st)"
    and tree: "thread_tree st' = take it (thread_tree st) @ drop (Suc it) (thread_tree st)"
    and gone: "\<not> address_arbiter_tree (threads st' (thread_tree st ! it))"
    and flags: "\<And>t. t \<noteq> thread_tree st ! it \<Longrightarrow>
        address_arbiter_tree (threads st' t) = address_arbiter_tree (threads st t)"
    and keys: "\<And>t. address_arbiter_key (threads st' t) = address_arbiter_key (threads st t)"
    and prios: "\<And>t. priority (threads st' t) = priority (threads st t)"
  shows "arbiter_inv st'"
proof -
  let ?w = "thread_tree st ! it"
  let ?pre = "take it (thread_tree st)"
  let ?rest = "drop (Suc it) (thread_tree st)"
  have split: "thread_tree st = ?pre @ ?w # ?rest"
    using it by (rule id_take_nth_drop)
  from inv have d: "distinct (?pre @ ?w # ?rest)"
    and mem: "\<And>t. t \<in> set (?pre @ ?w # ?rest) \<longleftrightarrow> address_arbiter_tree (threads st t)"
    and ord: "sorted_wrt (\<lambda>a b. \<not> thread_less (threads st b) (threads st a)) (?pre @ ?w # ?rest)"
    unfolding arbiter_inv_def tree_ordered_def IsWaitingForAddressArbiter_def
    using split by simp_all
  have less: "\<And>a b. thread_less (threads st' b) (threads st' a) =
      thread_less (threads st b) (threads st a)"
    by (simp add: thread_less_def keys prios)
  have d': "distinct (thread_tree st')"
    using d by (simp add: tree)
  have mem': "t \<in> set (thread_tree st') \<longleftrightarrow> address_arbiter_tree (threads st' t)" for t
  proof (cases "t = ?w")
    case True
    with d gone show ?thesis by (auto simp: tree)
  next
    case False
    with mem [of t] flags [of t] show ?thesis by (auto simp: tree)
  qed
  have ord': "sorted_wrt (\<lambda>a b. \<not> thread_less (threads st' b) (threads st' a)) (thread_tree st')"
    using ord unfolding less by (auto simp: tree sorted_wrt_append)
  from d' mem' ord' show ?thesis
    by (simp add: arbiter_inv_def tree_ordered_def IsWaitingForAddressArbiter_def)
qed


lemma wake_one_at:
  assumes "it < length (thread_tree st)"
  shows "wake_one st it =
     st\<lparr>threads := (threads st)(thread_tree st ! it := woken (threads st (thread_tree st ! it))),
        thread_tree := take it (thread_tree st) @ drop (Suc it) (thread_tree st),
        wakeups := wakeups st @ [thread_tree st ! it]\<rparr>"
proof -
  have "thread_tree st =
      take it (thread_tree st) @ thread_tree st ! it # drop (Suc it) (thread_tree st)"
    using assms by (rule id_take_nth_drop)
  from wake_one_eq [OF this] assms show ?thesis by simp
qed

lemma arbiter_inv_wake_one:
  assumes "arbiter_inv st" "it < length (thread_tree st)"
  shows "arbiter_inv (wake_one st it)"
  using assms
  by (rule arbiter_inv_erase) (simp_all add: wake_one_at [OF assms(2)] woken_def)

lemma arbiter_inv_signal_loop:
  "arbiter_inv st \<Longrightarrow> arbiter_inv (signal_loop st addr count n it)"
proof (induction st addr count n it rule: signal_loop.induct)
  case (1 st addr count n it)
  show ?case
  proof (cases "it < tree_end st \<and> (count \<le>s 0 \<or> n <s count) \<and>
         GetAddressArbiterKey st (thread_tree st ! it) = addr")
    case True
    then have "arbiter_inv (wake_one st it)"
      using "1.prems" by (simp add: arbiter_inv_wake_one tree_end_def)
    with True "1.IH" have "arbiter_inv (signal_loop (wake_one st it) addr count (n + 1) it)"
      by blast
    with True show ?thesis by (subst signal_loop.simps) simp
  next
    case False
    then have "signal_loop st addr count n it = st"
      by (subst signal_loop.simps) auto
    with "1.prems" show ?thesis by simp
  qed
qed

lemma arbiter_inv_Signal: "arbiter_inv st \<Longrightarrow> arbiter_inv (snd (Signal st addr count))"
  by (simp add: Signal_def arbiter_inv_signal_loop)

lemma arbiter_inv_SignalAndIncrementIfEqual:
  "arbiter_inv st \<Longrightarrow> arbiter_inv (snd (SignalAndIncrementIfEqual st addr v count))"
  by (simp add: SignalAndIncrementIfEqual_def Let_def arbiter_inv_signal_loop
      arbiter_inv_kernel_part [OF kernel_part_UpdateIfEqual])

lemma arbiter_inv_SignalAndModifyByWaitingCountIfEqual:
  "arbiter_inv st \<Longrightarrow>
   arbiter_inv (snd (SignalAndModifyByWaitingCountIfEqual st addr v count))"
  by (simp add: SignalAndModifyByWaitingCountIfEqual_def Let_def arbiter_inv_signal_loop
      arbiter_inv_kernel_part [OF kernel_part_UpdateIfEqual] ReadFromUser_def)

lemma arbiter_inv_SetSyncedObject:
  "arbiter_inv (SetSyncedObject st t r) = arbiter_inv st"
  by (rule arbiter_inv_cong) (simp_all add: SetSyncedObject_def update_thread_def)

lemma arbiter_inv_timer_expires: "arbiter_inv (timer_expires st t) = arbiter_inv st"
  by (rule arbiter_inv_cong)
     (simp_all add: timer_expires_def Wakeup_def SetState_def update_thread_def Let_def)


lemma arbiter_inv_park:
  assumes inv: "arbiter_inv st" and out: "\<not> IsWaitingForAddressArbiter st cur"
  shows "arbiter_inv (park st cur addr timeout)"
proof -
  let ?st1 = "SetAddressArbiter st cur addr"
  let ?lt = "\<lambda>a b. thread_less (threads ?st1 a) (threads ?st1 b)"
  let ?xs = "thread_tree st"
  let ?ys = "takeWhile (\<lambda>u. \<not> ?lt cur u) ?xs @ cur # dropWhile (\<lambda>u. \<not> ?lt cur u) ?xs"
  from inv have d: "distinct ?xs"
    and mem: "\<And>t. t \<in> set ?xs \<longleftrightarrow> address_arbiter_tree (threads st t)"
    and ord: "sorted_wrt (\<lambda>a b. \<not> thread_less (threads st b) (threads st a)) ?xs"
    by (simp_all add: arbiter_inv_def tree_ordered_def IsWaitingForAddressArbiter_def)
  from out mem have new: "cur \<notin> set ?xs"
    by (simp add: IsWaitingForAddressArbiter_def)
  have same: "threads ?st1 t = threads st t" if "t \<in> set ?xs" for t
    using that new by (auto simp: SetAddressArbiter_def update_thread_def)
  have "sorted_wrt (\<lambda>a b. \<not> ?lt b a) ?xs"
    using ord by (rule sorted_wrt_mono_rel [rotated]) (simp add: same)
  then have ord1: "sorted_wrt (\<lambda>a b. \<not> ?lt b a) ?ys"
    by (rule sorted_wrt_insert_behind [rotated 2])
       (auto dest: thread_less_asym thread_less_trans)
  have tree: "thread_tree (park st cur addr timeout) = ?ys"
    by (simp add: park_fields tree_insert_def SetAddressArbiter_def update_thread_def)
  have set_ys: "set ?ys = insert cur (set ?xs)"
  proof -
    have "set ?ys = insert cur (set (takeWhile (\<lambda>u. \<not> ?lt cur u) ?xs @
        dropWhile (\<lambda>u. \<not> ?lt cur u) ?xs))"
      by (simp only: set_append set_simps) blast
    then show ?thesis by (simp only: takeWhile_dropWhile_id)
  qed
  have "distinct (takeWhile (\<lambda>u. \<not> ?lt cur u) ?xs @ dropWhile (\<lambda>u. \<not> ?lt cur u) ?xs)"
    using d by (simp only: takeWhile_dropWhile_id)
  then have dd: "distinct (takeWhile (\<lambda>u. \<not> ?lt cur u) ?xs) \<and>
      distinct (dropWhile (\<lambda>u. \<not> ?lt cur u) ?xs) \<and>
      set (takeWhile (\<lambda>u. \<not> ?lt cur u) ?xs) \<inter> set (dropWhile (\<lambda>u. \<not> ?lt cur u) ?xs) = {}"
    by (simp only: distinct_append)
  have sub: "set (takeWhile (\<lambda>u. \<not> ?lt cur u) ?xs) \<subseteq> set ?xs"
      "set (dropWhile (\<lambda>u. \<not> ?lt cur u) ?xs) \<subseteq> set ?xs"
    by (auto dest: set_takeWhileD set_dropWhileD)
  have d': "distinct ?ys"
    using dd sub new by (simp only: distinct_append distinct.simps set_simps) blast
  have less: "\<And>a b. thread_less (threads (park st cur addr timeout) b)
        (threads (park st cur addr timeout) a) = ?lt b a"
    by (simp add: thread_less_def park_fields SetAddressArbiter_def update_thread_def)
  have mem': "t \<in> set ?ys \<longleftrightarrow> address_arbiter_tree (threads (park st cur addr timeout) t)"
    for t
    unfolding set_ys using mem [of t] by (simp add: park_fields)
  show ?thesis
    unfolding arbiter_inv_def tree_ordered_def IsWaitingForAddressArbiter_def less tree
    using d' mem' ord1 by blast
qed

lemma first_index:
  "t \<in> set xs \<Longrightarrow>
   length (takeWhile (\<lambda>u. u \<noteq> t) xs) < length xs \<and>
   xs ! length (takeWhile (\<lambda>u. u \<noteq> t) xs) = t"
  by (induction xs) auto

lemma iterator_to_nth:
  "t \<in> set (thread_tree st) \<Longrightarrow>
   iterator_to st t < length (thread_tree st) \<and> thread_tree st ! iterator_to st t = t"
  unfolding iterator_to_def by (rule first_index)

lemma arbiter_inv_Wait_finish:
  assumes inv: "arbiter_inv st"
  shows "arbiter_inv (snd (Wait_finish st cur))"
proof (cases "IsWaitingForAddressArbiter st cur")
  case False
  then have "snd (Wait_finish st cur) = UnscheduleTimeEvent st cur"
    by (simp add: Wait_finish_def Let_def IsWaitingForAddressArbiter_def
        UnscheduleTimeEvent_def)
  moreover have "arbiter_inv (UnscheduleTimeEvent st cur) = arbiter_inv st"
    by (rule arbiter_inv_cong) (simp_all add: UnscheduleTimeEvent_def)
  ultimately show ?thesis using inv by simp
next
  case True
  let ?st1 = "UnscheduleTimeEvent st cur"
  have inv1: "arbiter_inv ?st1"
    using inv arbiter_inv_cong [of ?st1 st] by (simp add: UnscheduleTimeEvent_def)
  from True inv have "cur \<in> set (thread_tree st)"
    by (simp add: arbiter_inv_def)
  then have "cur \<in> set (thread_tree ?st1)" by (simp add: UnscheduleTimeEvent_def)
  note at = iterator_to_nth [OF this]
  from True have fin: "snd (Wait_finish st cur) =
      ClearAddressArbiter (tree_erase ?st1 (iterator_to ?st1 cur)) cur"
    by (simp add: Wait_finish_def Let_def IsWaitingForAddressArbiter_def
        UnscheduleTimeEvent_def)
  show ?thesis
    unfolding fin using inv1 at [THEN conjunct1]
    by (rule arbiter_inv_erase)
       (simp_all add: at ClearAddressArbiter_def tree_erase_def update_thread_def)
qed


lemma parked_bound:
  "IsWaitingForAddressArbiter (park st cur addr timeout) cur \<and>
   GetAddressArbiterKey (park st cur addr timeout) cur = addr \<and>
   cur \<in> set (waiters (park st cur addr timeout) addr)"
  by (simp add: IsWaitingForAddressArbiter_def GetAddressArbiterKey_def waiters_def
      park_fields tree_insert_def)


lemma arbiter_inv_WaitIfLessThan_begin:
  assumes inv: "arbiter_inv st" and out: "\<not> IsWaitingForAddressArbiter st cur"
  shows "arbiter_inv (snd (WaitIfLessThan_begin st cur addr v decrement timeout))"
proof -
  define st1 where "st1 = SetSyncedObject st cur ResultTimedOut"
  define rd where "rd = (if decrement then DecrementIfLessThan st1 addr v
                         else ReadFromUser st1 addr)"
  define st2 where "st2 = snd (snd rd)"
  have call: "WaitIfLessThan_begin st cur addr v decrement timeout =
     (if IsTerminationRequested st cur then (Some ResultTerminationRequested, st)
      else if \<not> fst rd then (Some ResultInvalidCurrentMemory, st2)
      else if v \<le>s fst (snd rd) then (Some ResultInvalidState, st2)
      else if timeout = 0 then (Some ResultTimedOut, st2)
      else (None, park st2 cur addr timeout))"
    by (simp add: WaitIfLessThan_begin_def Let_def rd_def st1_def st2_def)
  have k: "kernel_part st2 = kernel_part st1"
    by (simp add: st2_def rd_def kernel_part_DecrementIfLessThan ReadFromUser_def)
  have inv1: "arbiter_inv st1"
    using inv by (simp add: st1_def arbiter_inv_SetSyncedObject)
  then have inv2: "arbiter_inv st2"
    by (simp only: arbiter_inv_kernel_part [OF k])
  from out have "\<not> IsWaitingForAddressArbiter st1 cur"
    by (simp add: st1_def IsWaitingForAddressArbiter_def SetSyncedObject_def update_thread_def)
  with k have out2: "\<not> IsWaitingForAddressArbiter st2 cur"
    by (simp add: IsWaitingForAddressArbiter_def kernel_part_def)
  note p = arbiter_inv_park [OF inv2 out2, of addr timeout]
  show ?thesis unfolding call using inv inv2 p by simp
qed

lemma arbiter_inv_WaitIfEqual_begin:
  assumes inv: "arbiter_inv st" and out: "\<not> IsWaitingForAddressArbiter st cur"
  shows "arbiter_inv (snd (WaitIfEqual_begin st cur addr v timeout))"
proof -
  define st1 where "st1 = SetSyncedObject st cur ResultTimedOut"
  have call: "WaitIfEqual_begin st cur addr v timeout =
     (if IsTerminationRequested st cur then (Some ResultTerminationRequested, st)
      else if v \<noteq> memory st1 addr then (Some ResultInvalidState, st1)
      else if timeout = 0 then (Some ResultTimedOut, st1)
      else (None, park st1 cur addr timeout))"
    by (simp add: WaitIfEqual_begin_def Let_def st1_def ReadFromUser_def Read32_def)
  have inv1: "arbiter_inv st1"
    using inv by (simp add: st1_def arbiter_inv_SetSyncedObject)
  from out have out1: "\<not> IsWaitingForAddressArbiter st1 cur"
    by (simp add: st1_def IsWaitingForAddressArbiter_def SetSyncedObject_def update_thread_def)
  note p = arbiter_inv_park [OF inv1 out1, of addr timeout]
  show ?thesis unfolding call using inv inv1 p by simp
qed

lemma arbiter_inv_exec:
  assumes inv: "arbiter_inv st" and ok: "callable st c"
  shows "arbiter_inv (snd (exec st c))"
proof (cases c)
  case (Call_Signal addr count)
  with inv show ?thesis by (simp add: arbiter_inv_Signal Let_def)
next
  case (Call_SignalAndIncrementIfEqual addr v count)
  with inv show ?thesis by (simp add: arbiter_inv_SignalAndIncrementIfEqual Let_def)
next
  case (Call_SignalAndModifyByWaitingCountIfEqual addr v count)
  with inv show ?thesis
    by (simp add: arbiter_inv_SignalAndModifyByWaitingCountIfEqual Let_def)
next
  case (Call_WaitIfLessThan cur addr v decrement timeout)
  with inv ok show ?thesis by (simp add: arbiter_inv_WaitIfLessThan_begin)
next
  case (Call_WaitIfEqual cur addr v timeout)
  with inv ok show ?thesis by (simp add: arbiter_inv_WaitIfEqual_begin)
next
  case (Resume cur)
  with inv show ?thesis by (simp add: arbiter_inv_Wait_finish Let_def)
next
  case (Timer t)
  with inv show ?thesis by (simp add: arbiter_inv_timer_expires)
qed


text \<open>
  Claim C8. The invariant of the arbiter says that no thread is in the tree twice, that a
  thread is in the tree exactly when its tree pointer is set, and that the order of the
  tree is the order of the keys and priorities that the threads store. Every entry point
  preserves it: the three signals, the call of either wait by a thread that is not
  enrolled, the continuation of a wait and the expiry of a timer. A wait that parks has
  bound its caller: the tree pointer is set, the stored key is the address, and the caller
  is among the waiters of that address. After the continuation of a wait the caller's
  tree pointer is reset and the caller is out of the tree.
\<close>

theorem arbiter_inv_preserved:
  assumes inv: "arbiter_inv st" and ok: "callable st c"
  shows "arbiter_inv (snd (exec st c)) \<and>
    (c = Call_WaitIfLessThan cur addr v decrement timeout \<and> fst (exec st c) = None \<longrightarrow>
       IsWaitingForAddressArbiter (snd (exec st c)) cur \<and>
       GetAddressArbiterKey (snd (exec st c)) cur = addr \<and>
       cur \<in> set (waiters (snd (exec st c)) addr)) \<and>
    (c = Call_WaitIfEqual cur addr v timeout \<and> fst (exec st c) = None \<longrightarrow>
       IsWaitingForAddressArbiter (snd (exec st c)) cur \<and>
       GetAddressArbiterKey (snd (exec st c)) cur = addr \<and>
       cur \<in> set (waiters (snd (exec st c)) addr)) \<and>
    (c = Resume cur \<longrightarrow>
       \<not> IsWaitingForAddressArbiter (snd (exec st c)) cur \<and>
       cur \<notin> set (thread_tree (snd (exec st c))))"
proof -
  note inv' = arbiter_inv_exec [OF inv ok]
  have less: "IsWaitingForAddressArbiter (snd (exec st c)) cur \<and>
       GetAddressArbiterKey (snd (exec st c)) cur = addr \<and>
       cur \<in> set (waiters (snd (exec st c)) addr)"
    if "c = Call_WaitIfLessThan cur addr v decrement timeout \<and> fst (exec st c) = None"
    using that
    by (auto simp: WaitIfLessThan_begin_def Let_def parked_bound split: if_splits)
  have equal: "IsWaitingForAddressArbiter (snd (exec st c)) cur \<and>
       GetAddressArbiterKey (snd (exec st c)) cur = addr \<and>
       cur \<in> set (waiters (snd (exec st c)) addr)"
    if "c = Call_WaitIfEqual cur addr v timeout \<and> fst (exec st c) = None"
    using that
    by (auto simp: WaitIfEqual_begin_def Let_def parked_bound split: if_splits)
  have resume: "\<not> IsWaitingForAddressArbiter (snd (exec st c)) cur \<and>
       cur \<notin> set (thread_tree (snd (exec st c)))"
    if c: "c = Resume cur"
  proof -
    have "\<not> IsWaitingForAddressArbiter (snd (exec st c)) cur"
      by (simp add: c Wait_finish_def Let_def IsWaitingForAddressArbiter_def
          ClearAddressArbiter_def tree_erase_def update_thread_def UnscheduleTimeEvent_def)
    with inv' show ?thesis by (simp add: arbiter_inv_def)
  qed
  from inv' less equal resume show ?thesis by blast
qed

lemma tree_after_fourth_wait:
  "exec three_waiters (Call_WaitIfEqual 4 0x2000 0 (- 1)) =
     (None, three_waiters\<lparr>threads := (threads three_waiters)(4 := parked_thread 0 0x2000),
                          thread_tree := [4, 1, 3, 2]\<rparr>)"
  by (simp add: three_waiters_def boot_def idle_thread_def parked_thread_def
      WaitIfEqual_begin_def IsTerminationRequested_def SetSyncedObject_def update_thread_def
      ReadFromUser_def Read32_def park_def SetAddressArbiter_def tree_insert_def SetState_def
      SetWaitReasonForDebugging_def thread_less_def Let_def fun_eq_iff word_sless_alt)

theorem arbiter_inv_preserved_witness:
  "arbiter_inv three_waiters \<and> callable three_waiters (Call_WaitIfEqual 4 0x2000 0 (- 1)) \<and>
   fst (exec three_waiters (Call_WaitIfEqual 4 0x2000 0 (- 1))) = None \<and>
   arbiter_inv (snd (exec three_waiters (Call_WaitIfEqual 4 0x2000 0 (- 1)))) \<and>
   thread_tree (snd (exec three_waiters (Call_WaitIfEqual 4 0x2000 0 (- 1)))) = [4, 1, 3, 2] \<and>
   4 \<in> set (waiters (snd (exec three_waiters (Call_WaitIfEqual 4 0x2000 0 (- 1)))) 0x2000) \<and>
   callable three_waiters (Resume 3) \<and>
   arbiter_inv (snd (exec three_waiters (Resume 3))) \<and>
   3 \<notin> set (thread_tree (snd (exec three_waiters (Resume 3)))) \<and>
   callable three_waiters (Call_Signal 0x2000 2) \<and>
   arbiter_inv (snd (exec three_waiters (Call_Signal 0x2000 2)))"
proof -
  have c: "callable three_waiters (Call_WaitIfEqual 4 0x2000 0 (- 1))"
    by (simp add: IsWaitingForAddressArbiter_def three_waiters_def boot_def idle_thread_def)
  have n: "fst (exec three_waiters (Call_WaitIfEqual 4 0x2000 0 (- 1))) = None"
          "thread_tree (snd (exec three_waiters (Call_WaitIfEqual 4 0x2000 0 (- 1)))) = [4, 1, 3, 2]"
    by (simp_all only: tree_after_fourth_wait fst_conv snd_conv) simp
  note A = arbiter_inv_preserved [OF arbiter_inv_three_waiters c,
      where cur = 4 and addr = "0x2000" and v = 0 and timeout = "- 1"]
  have r: "callable three_waiters (Resume 3)" "callable three_waiters (Call_Signal 0x2000 2)"
    by simp_all
  note B = arbiter_inv_preserved [OF arbiter_inv_three_waiters r(1), where cur = 3]
  note C = arbiter_inv_preserved [OF arbiter_inv_three_waiters r(2)]
  from A B C n c r arbiter_inv_three_waiters show ?thesis by blast
qed

subsection \<open>No entry point reports unreadable memory\<close>

lemma wait_result_signal_loop:
  "GetWaitResult st t \<noteq> ResultInvalidCurrentMemory \<Longrightarrow>
   GetWaitResult (signal_loop st addr count n it) t \<noteq> ResultInvalidCurrentMemory"
proof (induction st addr count n it rule: signal_loop.induct)
  case (1 st addr count n it)
  show ?case
  proof (cases "it < tree_end st \<and> (count \<le>s 0 \<or> n <s count) \<and>
         GetAddressArbiterKey st (thread_tree st ! it) = addr")
    case True
    then have "it < length (thread_tree st)" by (simp add: tree_end_def)
    then have "GetWaitResult (wake_one st it) t \<noteq> ResultInvalidCurrentMemory"
      using "1.prems" by (simp add: wake_one_at GetWaitResult_def woken_def)
    with True "1.IH"
    have "GetWaitResult (signal_loop (wake_one st it) addr count (n + 1) it) t
          \<noteq> ResultInvalidCurrentMemory"
      by blast
    with True show ?thesis by (subst signal_loop.simps) simp
  next
    case False
    then have "signal_loop st addr count n it = st"
      by (subst signal_loop.simps) auto
    with "1.prems" show ?thesis by simp
  qed
qed

lemma GetWaitResult_kernel_part:
  "kernel_part st' = kernel_part st \<Longrightarrow> GetWaitResult st' t = GetWaitResult st t"
  by (simp add: kernel_part_def GetWaitResult_def)

lemma wait_result_park:
  "GetWaitResult (park st cur addr timeout) t = GetWaitResult st t"
  by (simp add: GetWaitResult_def park_fields)

lemma wait_result_Wait_finish:
  "GetWaitResult (snd (Wait_finish st cur)) t = GetWaitResult st t \<and>
   fst (Wait_finish st cur) = GetWaitResult st cur"
  by (simp add: Wait_finish_def Let_def GetWaitResult_def UnscheduleTimeEvent_def
      ClearAddressArbiter_def tree_erase_def update_thread_def)

lemma wait_result_WaitIfLessThan_begin:
  assumes "GetWaitResult st t \<noteq> ResultInvalidCurrentMemory"
  shows "GetWaitResult (snd (WaitIfLessThan_begin st cur addr v decrement timeout)) t
         \<noteq> ResultInvalidCurrentMemory"
proof -
  define st1 where "st1 = SetSyncedObject st cur ResultTimedOut"
  define rd where "rd = (if decrement then DecrementIfLessThan st1 addr v
                         else ReadFromUser st1 addr)"
  define st2 where "st2 = snd (snd rd)"
  have call: "WaitIfLessThan_begin st cur addr v decrement timeout =
     (if IsTerminationRequested st cur then (Some ResultTerminationRequested, st)
      else if \<not> fst rd then (Some ResultInvalidCurrentMemory, st2)
      else if v \<le>s fst (snd rd) then (Some ResultInvalidState, st2)
      else if timeout = 0 then (Some ResultTimedOut, st2)
      else (None, park st2 cur addr timeout))"
    by (simp add: WaitIfLessThan_begin_def Let_def rd_def st1_def st2_def)
  have k: "kernel_part st2 = kernel_part st1"
    by (simp add: st2_def rd_def kernel_part_DecrementIfLessThan ReadFromUser_def)
  have "GetWaitResult st1 t \<noteq> ResultInvalidCurrentMemory"
    using assms by (simp add: st1_def GetWaitResult_def SetSyncedObject_def update_thread_def)
  then have "GetWaitResult st2 t \<noteq> ResultInvalidCurrentMemory"
    by (simp add: GetWaitResult_kernel_part [OF k])
  with assms show ?thesis unfolding call by (simp add: wait_result_park)
qed

lemma wait_result_WaitIfEqual_begin:
  assumes "GetWaitResult st t \<noteq> ResultInvalidCurrentMemory"
  shows "GetWaitResult (snd (WaitIfEqual_begin st cur addr v timeout)) t
         \<noteq> ResultInvalidCurrentMemory"
  using assms
  by (simp add: WaitIfEqual_begin_def Let_def ReadFromUser_def wait_result_park)
     (simp add: GetWaitResult_def SetSyncedObject_def update_thread_def)

lemma wait_result_exec:
  assumes "GetWaitResult st t \<noteq> ResultInvalidCurrentMemory"
  shows "GetWaitResult (snd (exec st c)) t \<noteq> ResultInvalidCurrentMemory"
proof (cases c)
  case (Call_Signal addr count)
  with assms show ?thesis by (simp add: Signal_def Let_def wait_result_signal_loop)
next
  case (Call_SignalAndIncrementIfEqual addr v count)
  have "GetWaitResult (snd (snd (UpdateIfEqual st addr v (v + 1)))) t
        \<noteq> ResultInvalidCurrentMemory"
    using assms by (simp add: GetWaitResult_kernel_part [OF kernel_part_UpdateIfEqual])
  with Call_SignalAndIncrementIfEqual show ?thesis
    by (simp add: SignalAndIncrementIfEqual_def Let_def wait_result_signal_loop)
next
  case (Call_SignalAndModifyByWaitingCountIfEqual addr v count)
  have "GetWaitResult (snd (snd (UpdateIfEqual st addr v n))) t
        \<noteq> ResultInvalidCurrentMemory" for n
    using assms by (simp add: GetWaitResult_kernel_part [OF kernel_part_UpdateIfEqual])
  with assms Call_SignalAndModifyByWaitingCountIfEqual show ?thesis
    by (simp add: SignalAndModifyByWaitingCountIfEqual_def Let_def wait_result_signal_loop
        ReadFromUser_def)
next
  case (Call_WaitIfLessThan cur addr v decrement timeout)
  with assms show ?thesis by (simp add: wait_result_WaitIfLessThan_begin)
next
  case (Call_WaitIfEqual cur addr v timeout)
  with assms show ?thesis by (simp add: wait_result_WaitIfEqual_begin)
next
  case (Resume cur)
  with assms show ?thesis by (simp add: Let_def wait_result_Wait_finish)
next
  case (Timer u)
  with assms show ?thesis
    by (auto simp: timer_expires_def Wakeup_def SetState_def update_thread_def Let_def
        GetWaitResult_def)
qed

lemma wait_result_run:
  "GetWaitResult st t \<noteq> ResultInvalidCurrentMemory \<Longrightarrow>
   GetWaitResult (run st cs) t \<noteq> ResultInvalidCurrentMemory"
  by (induction cs arbitrary: st) (simp_all add: wait_result_exec)


lemma wait_result_parked_less:
  "fst (WaitIfLessThan_begin st cur addr v decrement timeout) = None \<Longrightarrow>
   GetWaitResult (snd (WaitIfLessThan_begin st cur addr v decrement timeout)) cur
     = ResultTimedOut"
  by (auto simp: WaitIfLessThan_begin_def Let_def wait_result_park ReadFromUser_def
      GetWaitResult_kernel_part [OF kernel_part_DecrementIfLessThan]
      split: if_splits)
     (simp_all add: GetWaitResult_def SetSyncedObject_def update_thread_def)

lemma wait_result_parked_equal:
  "fst (WaitIfEqual_begin st cur addr v timeout) = None \<Longrightarrow>
   GetWaitResult (snd (WaitIfEqual_begin st cur addr v timeout)) cur = ResultTimedOut"
  by (auto simp: WaitIfEqual_begin_def Let_def wait_result_park ReadFromUser_def
      split: if_splits)
     (simp_all add: GetWaitResult_def SetSyncedObject_def update_thread_def)

text \<open>
  Claim C9. \<^verbatim>\<open>ReadFromUser\<close>, \<^verbatim>\<open>DecrementIfLessThan\<close> and \<^verbatim>\<open>UpdateIfEqual\<close> return true
  on every input. So no signal and no wait returns \<^verbatim>\<open>ResultInvalidCurrentMemory\<close> from
  its own checks. A wait that has parked returns, when it continues, the result stored in
  its thread; that result was set to \<^verbatim>\<open>ResultTimedOut\<close> before parking, and whatever
  calls and timer expiries happen in between store nothing but success in it: the
  continuation does not return \<^verbatim>\<open>ResultInvalidCurrentMemory\<close> either.
\<close>

theorem never_InvalidCurrentMemory:
  "fst (ReadFromUser st addr) \<and> fst (DecrementIfLessThan st addr v) \<and>
   fst (UpdateIfEqual st addr v n) \<and>
   fst (Signal st addr count) \<noteq> ResultInvalidCurrentMemory \<and>
   fst (SignalAndIncrementIfEqual st addr v count) \<noteq> ResultInvalidCurrentMemory \<and>
   fst (SignalAndModifyByWaitingCountIfEqual st addr v count) \<noteq> ResultInvalidCurrentMemory \<and>
   fst (WaitIfLessThan_begin st cur addr v decrement timeout)
     \<noteq> Some ResultInvalidCurrentMemory \<and>
   fst (WaitIfEqual_begin st cur addr v timeout) \<noteq> Some ResultInvalidCurrentMemory \<and>
   (fst (WaitIfLessThan_begin st cur addr v decrement timeout) = None \<longrightarrow>
      fst (Wait_finish (run (snd (WaitIfLessThan_begin st cur addr v decrement timeout)) cs) cur)
        \<noteq> ResultInvalidCurrentMemory) \<and>
   (fst (WaitIfEqual_begin st cur addr v timeout) = None \<longrightarrow>
      fst (Wait_finish (run (snd (WaitIfEqual_begin st cur addr v timeout)) cs) cur)
        \<noteq> ResultInvalidCurrentMemory)"
proof -
  have c1: "fst (ReadFromUser st addr) \<and> fst (DecrementIfLessThan st addr v) \<and>
      fst (UpdateIfEqual st addr v n)"
    by (simp add: ReadFromUser_def DecrementIfLessThan_ok UpdateIfEqual_ok)
  have c2: "fst (Signal st addr count) \<noteq> ResultInvalidCurrentMemory"
    by (simp add: Signal_def Let_def)
  have c3: "fst (SignalAndIncrementIfEqual st addr v count) \<noteq> ResultInvalidCurrentMemory"
    by (simp add: SignalAndIncrementIfEqual_def Let_def UpdateIfEqual_ok)
  have c4: "fst (SignalAndModifyByWaitingCountIfEqual st addr v count)
      \<noteq> ResultInvalidCurrentMemory"
    by (simp add: SignalAndModifyByWaitingCountIfEqual_def Let_def UpdateIfEqual_ok
        ReadFromUser_def)
  have c5: "fst (WaitIfLessThan_begin st cur addr v decrement timeout)
      \<noteq> Some ResultInvalidCurrentMemory"
    by (simp add: WaitIfLessThan_begin_def Let_def DecrementIfLessThan_ok ReadFromUser_def)
  have c6: "fst (WaitIfEqual_begin st cur addr v timeout) \<noteq> Some ResultInvalidCurrentMemory"
    by (simp add: WaitIfEqual_begin_def Let_def ReadFromUser_def)
  have c7: "fst (Wait_finish (run (snd (WaitIfLessThan_begin st cur addr v decrement timeout)) cs) cur)
        \<noteq> ResultInvalidCurrentMemory"
    if "fst (WaitIfLessThan_begin st cur addr v decrement timeout) = None"
  proof -
    from wait_result_parked_less [OF that]
    have "GetWaitResult (snd (WaitIfLessThan_begin st cur addr v decrement timeout)) cur
        \<noteq> ResultInvalidCurrentMemory"
      by simp
    then show ?thesis
      by (simp add: wait_result_Wait_finish wait_result_run)
  qed
  have c8: "fst (Wait_finish (run (snd (WaitIfEqual_begin st cur addr v timeout)) cs) cur)
        \<noteq> ResultInvalidCurrentMemory"
    if "fst (WaitIfEqual_begin st cur addr v timeout) = None"
  proof -
    from wait_result_parked_equal [OF that]
    have "GetWaitResult (snd (WaitIfEqual_begin st cur addr v timeout)) cur
        \<noteq> ResultInvalidCurrentMemory"
      by simp
    then show ?thesis
      by (simp add: wait_result_Wait_finish wait_result_run)
  qed
  from c1 c2 c3 c4 c5 c6 c7 c8 show ?thesis by blast
qed


theorem never_InvalidCurrentMemory_witness:
  "fst (WaitIfLessThan_begin boot 1 0x2000 5 True 7) = None \<and>
   fst (Wait_finish (run (snd (WaitIfLessThan_begin boot 1 0x2000 5 True 7)) [Timer 1]) 1)
     \<noteq> ResultInvalidCurrentMemory \<and>
   fst (WaitIfEqual_begin boot 1 0x2000 0 (- 1)) = None \<and>
   fst (Wait_finish (run (snd (WaitIfEqual_begin boot 1 0x2000 0 (- 1)))
          [Call_Signal 0x2000 1]) 1)
     \<noteq> ResultInvalidCurrentMemory"
proof -
  have a: "fst (WaitIfLessThan_begin boot 1 0x2000 5 True 7) = None"
    by (simp add: WaitIfLessThan_begin_def Let_def IsTerminationRequested_def boot_def
        idle_thread_def DecrementIfLessThan_out DecrementIfLessThan_ok SetSyncedObject_def
        update_thread_def word_sle_eq)
  have b: "fst (WaitIfEqual_begin boot 1 0x2000 0 (- 1)) = None"
    by (simp add: WaitIfEqual_begin_def Let_def IsTerminationRequested_def boot_def
        idle_thread_def ReadFromUser_def Read32_def SetSyncedObject_def update_thread_def)
  from a b
    never_InvalidCurrentMemory [of boot "0x2000" 5 _ _ 1 True 7 "[Timer 1]"]
    never_InvalidCurrentMemory [of boot "0x2000" 0 _ _ 1 _ "- 1" "[Call_Signal 0x2000 1]"]
  show ?thesis by blast
qed

end
